theory Spec2Isabelle
  imports Main
begin

section \<open>Tokens (scanner.cpp and C_lange_Parser_in_Cpp.cpp, class Token)\<close>

text \<open>
  Both programs declare the same class: the lexeme, the lexical category as a string,
  and the 1-based line where the lexeme began.
\<close>

record Token =
  token_value :: string
  token_class :: string
  line_number :: int

section \<open>The scanner (scanner.cpp)\<close>

subsection \<open>Character classes of the C library, in the "C" locale\<close>

text \<open>
  \<open>isspace\<close>, \<open>isalpha\<close>, \<open>isdigit\<close> and \<open>isalnum\<close> of the header cctype.
  In the "C" locale they hold of ASCII characters only; bytes from 0x80 on are in no class.
\<close>

definition isspace :: "char \<Rightarrow> bool" where
  "isspace c \<longleftrightarrow> c \<in> set [CHR '' '', CHR 0x09, CHR 0x0A, CHR 0x0B, CHR 0x0C, CHR 0x0D]"

definition isdigit :: "char \<Rightarrow> bool" where
  "isdigit c \<longleftrightarrow> c \<in> set ''0123456789''"

definition isalpha :: "char \<Rightarrow> bool" where
  "isalpha c \<longleftrightarrow>
     c \<in> set ''abcdefghijklmnopqrstuvwxyzABCDEFGHIJKLMNOPQRSTUVWXYZ''"

definition isalnum :: "char \<Rightarrow> bool" where
  "isalnum c \<longleftrightarrow> isalpha c \<or> isdigit c"

subsection \<open>The fixed vocabularies of \<open>scan\<close>\<close>

definition keywords_set :: "string list" where
  "keywords_set =
    [''auto'', ''break'', ''case'', ''char'', ''const'',
     ''continue'', ''default'', ''do'', ''double'', ''else'',
     ''enum'', ''extern'', ''float'', ''for'', ''goto'', ''if'',
     ''int'', ''long'', ''register'', ''return'', ''short'', ''signed'',
     ''sizeof'', ''static'', ''struct'', ''switch'', ''typedef'', ''union'', ''unsigned'',
     ''void'', ''volatile'', ''while'']"

definition single_char_operators :: "char list" where
  "single_char_operators = ''+-*/=<>%^|&~!''"

definition multi_char_operators :: "string list" where
  "multi_char_operators =
    [''++'', ''--'', ''<<'', ''>>'', ''=='', ''&&'', ''||'', ''+='', ''-='', ''*='', ''/='',
     ''%='', ''&='', ''|='', ''^='', ''<<='', ''>>='', ''!='', ''>='', ''<='', ''pow'']"

definition special_chars :: "char list" where
  "special_chars = ''(){};,#.[]''"

subsection \<open>Strings\<close>

text \<open>
  \<open>source_code[i]\<close>. Inside the string it is the character; at \<open>i = size()\<close> the C++
  standard gives the terminating NUL. Beyond that the read is undefined in C++; the model
  gives NUL there too. The scanner reads past \<open>size()\<close> only in two guarded conditions,
  and both guards are shown below never to hold where they are evaluated.
\<close>

definition char_at :: "string \<Rightarrow> nat \<Rightarrow> char" where
  "char_at s i = (if i < length s then s ! i else CHR 0x00)"

text \<open>\<open>s.substr(pos, n)\<close> for \<open>pos \<le> s.size()\<close>, which every call of the scanner ensures.\<close>

definition substr :: "string \<Rightarrow> nat \<Rightarrow> nat \<Rightarrow> string" where
  "substr s pos n = take n (drop pos s)"

subsection \<open>The global state of the scanner and the locals of \<open>scan\<close>\<close>

text \<open>
  The globals \<open>tokens\<close>, \<open>current_line\<close>, \<open>unexpected_char_error\<close>, \<open>unexpected_char\<close>
  and \<open>unterminated_comment_error\<close>, with the local \<open>current_char_index\<close> of \<open>scan\<close>.
  The index is an \<open>int\<close> compared with \<open>size_t\<close> in the source; it is a natural number
  here, which agrees for every source text shorter than \<open>2^31\<close> bytes.
\<close>

record scan_state =
  current_char_index :: nat
  current_line :: int
  tokens :: "Token list"
  unexpected_char_error :: bool
  unexpected_char :: char
  unterminated_comment_error :: bool

definition mkToken :: "string \<Rightarrow> string \<Rightarrow> int \<Rightarrow> Token" where
  "mkToken v c l = \<lparr>token_value = v, token_class = c, line_number = l\<rparr>"

definition addToken :: "string \<Rightarrow> string \<Rightarrow> int \<Rightarrow> scan_state \<Rightarrow> scan_state" where
  "addToken v c l st = st\<lparr>tokens := tokens st @ [mkToken v c l]\<rparr>"

definition initial_state :: scan_state where
  "initial_state =
     \<lparr>current_char_index = 0, current_line = 0, tokens = [],
      unexpected_char_error = False, unexpected_char = CHR 0x00,
      unterminated_comment_error = False\<rparr>"

subsection \<open>The inner loops of \<open>scan\<close>\<close>

text \<open>Lines 98-102: skip to the next newline (single-line comment).\<close>

function comment_loop :: "string \<Rightarrow> nat \<Rightarrow> nat" where
  "comment_loop s i =
     (if i < length s \<and> s ! i \<noteq> CHR 0x0A then comment_loop s (i + 1) else i)"
  by pat_completeness auto
termination
  by (relation "measure (\<lambda>(s, i). length s - i)") auto

text \<open>Lines 114-122: skip to the closing \<open>*/\<close>, counting the newlines passed.\<close>

function block_comment_loop :: "string \<Rightarrow> nat \<Rightarrow> int \<Rightarrow> nat \<times> int" where
  "block_comment_loop s i ln =
     (if i + 1 < length s \<and> \<not> (s ! i = CHR ''*'' \<and> s ! (i + 1) = CHR ''/'')
      then block_comment_loop s (i + 1) (if s ! i = CHR 0x0A then ln + 1 else ln)
      else (i, ln))"
  by pat_completeness auto
termination
  by (relation "measure (\<lambda>(s, i, ln). length s - i)") auto

text \<open>Lines 142-145: collect a preprocessor directive up to the next newline.\<close>

function directive_loop :: "string \<Rightarrow> nat \<Rightarrow> string \<Rightarrow> nat \<times> string" where
  "directive_loop s i directive =
     (if i < length s \<and> s ! i \<noteq> CHR 0x0A
      then directive_loop s (i + 1) (directive @ [s ! i])
      else (i, directive))"
  by pat_completeness auto
termination
  by (relation "measure (\<lambda>(s, i, d). length s - i)") auto

text \<open>Lines 217-220: collect an identifier or keyword.\<close>

function word_loop :: "string \<Rightarrow> nat \<Rightarrow> string \<Rightarrow> nat \<times> string" where
  "word_loop s i word =
     (if i < length s \<and> (isalnum (s ! i) \<or> s ! i = CHR ''_'')
      then word_loop s (i + 1) (word @ [s ! i])
      else (i, word))"
  by pat_completeness auto
termination
  by (relation "measure (\<lambda>(s, i, w). length s - i)") auto

text \<open>Lines 310-314: the digits after a radix point.\<close>

function digits_loop :: "string \<Rightarrow> nat \<Rightarrow> string \<Rightarrow> nat \<times> string" where
  "digits_loop s i number =
     (if i < length s \<and> isdigit (s ! i)
      then digits_loop s (i + 1) (number @ [s ! i])
      else (i, number))"
  by pat_completeness auto
termination
  by (relation "measure (\<lambda>(s, i, n). length s - i)") auto

declare comment_loop.simps [simp del] block_comment_loop.simps [simp del]
  directive_loop.simps [simp del] word_loop.simps [simp del] digits_loop.simps [simp del]

lemma digits_loop_ge: "i \<le> fst (digits_loop s i number)"
proof (induction s i number rule: digits_loop.induct)
  case (1 s i number)
  show ?case
  proof (cases "i < length s \<and> isdigit (s ! i)")
    case True
    with 1 have "i + 1 \<le> fst (digits_loop s (i + 1) (number @ [s ! i]))" by simp
    with True show ?thesis by (subst digits_loop.simps) simp
  next
    case False
    then show ?thesis by (subst digits_loop.simps) auto
  qed
qed

text \<open>
  Lines 301-324: the loop over a run of digits and radix points. At a radix point the
  accumulator, the point and the digits after it are emitted as one token, the
  accumulator is cleared and the loop continues; a digit is accumulated.
\<close>

function number_loop ::
  "string \<Rightarrow> int \<Rightarrow> nat \<Rightarrow> string \<Rightarrow> bool \<Rightarrow> Token list \<Rightarrow> nat \<times> string \<times> bool \<times> Token list"
where
  "number_loop s ln i number has_radix_point toks =
     (if i < length s \<and> (isdigit (s ! i) \<or> s ! i = CHR ''.'') then
        (if s ! i = CHR ''.'' then
           (let r = digits_loop s (i + 1) (number @ [s ! i])
            in number_loop s ln (fst r) [] True
                 (toks @ [mkToken (snd r) ''NUMERIC CONSTANT'' ln]))
         else number_loop s ln (i + 1) (number @ [s ! i]) has_radix_point toks)
      else (i, number, has_radix_point, toks))"
  by pat_completeness auto
termination
proof (relation "measure (\<lambda>(s, ln, i, n, h, t). length s - i)", goal_cases)
  case 1
  show ?case by simp
next
  case (2 s ln i number has_radix_point toks r)
  have "i + 1 \<le> fst (digits_loop s (i + 1) (number @ [s ! i]))"
    by (rule digits_loop_ge)
  with 2 show ?case by simp
next
  case 3
  then show ?case by auto
qed

declare number_loop.simps [simp del]

subsection \<open>One iteration of the main loop of \<open>scan\<close> (lines 65-345)\<close>

text \<open>
  The body of \<open>while (current_char_index < source_code.length())\<close>, with the checks in
  the order of the source. Every check that matches ends in \<open>continue\<close> or \<open>break\<close>, so
  the fall-through of the source is the \<open>else\<close> of the chain. The result is the new state
  and whether the loop goes on (\<open>True\<close> for \<open>continue\<close>, \<open>False\<close> for \<open>break\<close>).
\<close>

definition scan_iteration :: "string \<Rightarrow> scan_state \<Rightarrow> bool \<times> scan_state" where
  "scan_iteration s st =
    (let i = current_char_index st;
         ln = current_line st;
         currentChar = s ! i
     in
     \<comment> \<open>Check 1: whitespace\<close>
     if currentChar = CHR 0x0A then
       (True, st\<lparr>current_line := ln + 1, current_char_index := i + 1\<rparr>)
     else if isspace currentChar then
       (True, st\<lparr>current_char_index := i + 1\<rparr>)
     \<comment> \<open>Check 2: comments\<close>
     else if currentChar = CHR ''/'' \<and> i + 1 < length s \<and> s ! (i + 1) = CHR ''/'' then
       (True, addToken ''//'' ''Single-Line Comment'' ln
                (st\<lparr>current_char_index := comment_loop s i\<rparr>))
     else if currentChar = CHR ''/'' \<and> i + 1 < length s \<and> s ! (i + 1) = CHR ''*'' then
       (let r = block_comment_loop s (i + 2) ln
        in if fst r + 1 \<ge> length s then
             (False, st\<lparr>current_char_index := fst r, current_line := snd r,
                         unterminated_comment_error := True\<rparr>)
           else
             (True, addToken ''/* .. */'' ''Multi-Line Comment'' ln
                      (st\<lparr>current_char_index := fst r + 2, current_line := snd r\<rparr>)))
     \<comment> \<open>Check 3: preprocessor directives\<close>
     else if currentChar = CHR ''#'' then
       (let r = directive_loop s i []
        in (True, addToken (snd r) ''PREPROCESSOR DIRECTIVE'' ln
                    (st\<lparr>current_char_index := fst r\<rparr>)))
     \<comment> \<open>Check 4: operators, three characters, then two, then one\<close>
     else if i + 2 < length s \<and> substr s i 3 \<in> set multi_char_operators then
       (True, addToken (substr s i 3) ''OPERATOR'' ln (st\<lparr>current_char_index := i + 3\<rparr>))
     else if i + 1 < length s \<and> substr s i 2 \<in> set multi_char_operators then
       (True, addToken (substr s i 2) ''OPERATOR'' ln (st\<lparr>current_char_index := i + 2\<rparr>))
     else if currentChar \<in> set single_char_operators then
       (True, addToken [currentChar] ''OPERATOR'' ln (st\<lparr>current_char_index := i + 1\<rparr>))
     \<comment> \<open>special characters, with the side path for a character literal\<close>
     else if currentChar \<in> set special_chars then
       (let st1 = addToken [currentChar] ''SPECIAL CHARACTER'' ln st;
            st2 = (if currentChar = CHR 0x27 \<and> isalnum (char_at s (i + 1))
                      \<and> \<not> isalnum (char_at s (i + 2)) \<and> char_at s (i + 2) \<noteq> CHR ''_''
                   then (addToken [char_at s (i + 1)] ''CHAR_LITERAL'' ln st1)
                          \<lparr>current_char_index := i + 1\<rparr>
                   else st1)
        in (True, st2\<lparr>current_char_index := current_char_index st2 + 1\<rparr>))
     \<comment> \<open>Check 5: identifiers and keywords\<close>
     else if isalpha currentChar \<or> currentChar = CHR ''_'' then
       (let r = word_loop s i []
        in (True, addToken (snd r)
                    (if snd r \<in> set keywords_set then ''KEYWORD'' else ''IDENTIFIER'') ln
                    (st\<lparr>current_char_index := fst r\<rparr>)))
     \<comment> \<open>Check 6: numeric constants (scenario 2 of the source)\<close>
     else if isdigit currentChar \<or> (currentChar = CHR ''.'' \<and> isdigit (char_at s (i + 1))) then
       (case number_loop s ln i [] False (tokens st) of
          (j, number, has_radix_point, toks) \<Rightarrow>
            (True, st\<lparr>current_char_index := j,
                       tokens := (if \<not> has_radix_point
                                  then toks @ [mkToken number ''NUMERIC CONSTANT'' ln]
                                  else toks)\<rparr>))
     \<comment> \<open>Check 7: unexpected character\<close>
     else (False, st\<lparr>unexpected_char := s ! i, unexpected_char_error := True\<rparr>))"

subsection \<open>Every iteration that continues moves the index forward\<close>

lemma comment_loop_ge: "i \<le> comment_loop s i"
proof (induction s i rule: comment_loop.induct)
  case (1 s i)
  show ?case
  proof (cases "i < length s \<and> s ! i \<noteq> CHR 0x0A")
    case True
    with 1 have "i + 1 \<le> comment_loop s (i + 1)" by simp
    with True show ?thesis by (subst comment_loop.simps) simp
  next
    case False
    then show ?thesis by (subst comment_loop.simps) auto
  qed
qed

lemma comment_loop_gt: "i < length s \<Longrightarrow> s ! i \<noteq> CHR 0x0A \<Longrightarrow> i < comment_loop s i"
  using comment_loop_ge [of "i + 1" s] by (subst comment_loop.simps) simp

lemma block_comment_loop_ge: "i \<le> fst (block_comment_loop s i ln)"
proof (induction s i ln rule: block_comment_loop.induct)
  case (1 s i ln)
  let ?c = "i + 1 < length s \<and> \<not> (s ! i = CHR ''*'' \<and> s ! (i + 1) = CHR ''/'')"
  show ?case
  proof (cases ?c)
    case True
    with 1 have "i + 1 \<le> fst (block_comment_loop s (i + 1) (if s ! i = CHR 0x0A then ln + 1 else ln))"
      by simp
    with True show ?thesis by (subst block_comment_loop.simps) simp
  next
    case False
    then show ?thesis by (subst block_comment_loop.simps) auto
  qed
qed

lemma directive_loop_ge: "i \<le> fst (directive_loop s i d)"
proof (induction s i d rule: directive_loop.induct)
  case (1 s i d)
  show ?case
  proof (cases "i < length s \<and> s ! i \<noteq> CHR 0x0A")
    case True
    with 1 have "i + 1 \<le> fst (directive_loop s (i + 1) (d @ [s ! i]))" by simp
    with True show ?thesis by (subst directive_loop.simps) simp
  next
    case False
    then show ?thesis by (subst directive_loop.simps) auto
  qed
qed

lemma directive_loop_gt:
  "i < length s \<Longrightarrow> s ! i \<noteq> CHR 0x0A \<Longrightarrow> i < fst (directive_loop s i d)"
  using directive_loop_ge [of "i + 1" s "d @ [s ! i]"] by (subst directive_loop.simps) simp

lemma word_loop_ge: "i \<le> fst (word_loop s i w)"
proof (induction s i w rule: word_loop.induct)
  case (1 s i w)
  show ?case
  proof (cases "i < length s \<and> (isalnum (s ! i) \<or> s ! i = CHR ''_'')")
    case True
    with 1 have "i + 1 \<le> fst (word_loop s (i + 1) (w @ [s ! i]))" by simp
    with True show ?thesis by (subst word_loop.simps) simp
  next
    case False
    then show ?thesis by (subst word_loop.simps) auto
  qed
qed

lemma word_loop_gt:
  "i < length s \<Longrightarrow> isalnum (s ! i) \<or> s ! i = CHR ''_'' \<Longrightarrow> i < fst (word_loop s i w)"
  using word_loop_ge [of "i + 1" s "w @ [s ! i]"] by (subst word_loop.simps) simp

lemma number_loop_ge: "i \<le> fst (number_loop s ln i number h toks)"
proof (induction s ln i number h toks rule: number_loop.induct)
  case (1 s ln i number h toks)
  let ?r = "digits_loop s (i + 1) (number @ [s ! i])"
  consider (dot) "i < length s" "s ! i = CHR ''.''"
    | (digit) "i < length s" "isdigit (s ! i)" "s ! i \<noteq> CHR ''.''"
    | (stop) "\<not> (i < length s \<and> (isdigit (s ! i) \<or> s ! i = CHR ''.''))"
    by blast
  then show ?case
  proof cases
    case dot
    with 1(1) [of ?r] have "fst ?r \<le> fst (number_loop s ln (fst ?r) [] True
         (toks @ [mkToken (snd ?r) ''NUMERIC CONSTANT'' ln]))" by simp
    moreover have "i + 1 \<le> fst ?r" by (rule digits_loop_ge)
    ultimately show ?thesis using dot by (subst number_loop.simps) (simp add: Let_def)
  next
    case digit
    with 1(2) have "i + 1 \<le> fst (number_loop s ln (i + 1) (number @ [s ! i]) h toks)" by simp
    with digit show ?thesis by (subst number_loop.simps) simp
  next
    case stop
    then show ?thesis by (subst number_loop.simps) auto
  qed
qed

lemma number_loop_gt:
  assumes "i < length s" "isdigit (s ! i) \<or> s ! i = CHR ''.''"
  shows "i < fst (number_loop s ln i number h toks)"
proof (cases "s ! i = CHR ''.''")
  case True
  let ?r = "digits_loop s (i + 1) (number @ [s ! i])"
  have "i + 1 \<le> fst ?r" by (rule digits_loop_ge)
  moreover have "fst ?r \<le> fst (number_loop s ln (fst ?r) [] True
         (toks @ [mkToken (snd ?r) ''NUMERIC CONSTANT'' ln]))" by (rule number_loop_ge)
  ultimately show ?thesis using assms True by (subst number_loop.simps) (simp add: Let_def)
next
  case False
  have "i + 1 \<le> fst (number_loop s ln (i + 1) (number @ [s ! i]) h toks)"
    by (rule number_loop_ge)
  with assms False show ?thesis by (subst number_loop.simps) simp
qed

subsection \<open>Case analysis of one iteration\<close>

text \<open>
  The quote is not a special character and the radix point is one: the side path for a
  character literal is never taken, and the second disjunct of check 6 never decides.
\<close>

lemma special_not_quote: "c \<in> set special_chars \<Longrightarrow> c \<noteq> CHR 0x27"
  by (auto simp: special_chars_def)

lemma dot_special: "CHR ''.'' \<in> set special_chars"
  by (simp add: special_chars_def)

lemma scan_iteration_cases [case_names newline space line_comment unterminated block_comment
    directive op3 op2 op1 special word number unexpected]:
  fixes s :: string and st :: scan_state
  defines "i \<equiv> current_char_index st" and "ln \<equiv> current_line st"
  obtains
    (newline) "s ! i = CHR 0x0A"
      "scan_iteration s st = (True, st\<lparr>current_line := ln + 1, current_char_index := i + 1\<rparr>)"
  | (space) "isspace (s ! i)" "s ! i \<noteq> CHR 0x0A"
      "scan_iteration s st = (True, st\<lparr>current_char_index := i + 1\<rparr>)"
  | (line_comment) "s ! i = CHR ''/''" "i + 1 < length s" "s ! (i + 1) = CHR ''/''"
      "scan_iteration s st =
         (True, addToken ''//'' ''Single-Line Comment'' ln
                  (st\<lparr>current_char_index := comment_loop s i\<rparr>))"
  | (unterminated) "s ! i = CHR ''/''" "i + 1 < length s" "s ! (i + 1) = CHR ''*''"
      "fst (block_comment_loop s (i + 2) ln) + 1 \<ge> length s"
      "scan_iteration s st =
         (False, st\<lparr>current_char_index := fst (block_comment_loop s (i + 2) ln),
                     current_line := snd (block_comment_loop s (i + 2) ln),
                     unterminated_comment_error := True\<rparr>)"
  | (block_comment) "s ! i = CHR ''/''" "i + 1 < length s" "s ! (i + 1) = CHR ''*''"
      "fst (block_comment_loop s (i + 2) ln) + 1 < length s"
      "scan_iteration s st =
         (True, addToken ''/* .. */'' ''Multi-Line Comment'' ln
                  (st\<lparr>current_char_index := fst (block_comment_loop s (i + 2) ln) + 2,
                      current_line := snd (block_comment_loop s (i + 2) ln)\<rparr>))"
  | (directive) "s ! i = CHR ''#''"
      "scan_iteration s st =
         (True, addToken (snd (directive_loop s i [])) ''PREPROCESSOR DIRECTIVE'' ln
                  (st\<lparr>current_char_index := fst (directive_loop s i [])\<rparr>))"
  | (op3) "i + 2 < length s" "substr s i 3 \<in> set multi_char_operators"
      "scan_iteration s st =
         (True, addToken (substr s i 3) ''OPERATOR'' ln (st\<lparr>current_char_index := i + 3\<rparr>))"
  | (op2) "\<not> (i + 2 < length s \<and> substr s i 3 \<in> set multi_char_operators)"
      "i + 1 < length s" "substr s i 2 \<in> set multi_char_operators"
      "scan_iteration s st =
         (True, addToken (substr s i 2) ''OPERATOR'' ln (st\<lparr>current_char_index := i + 2\<rparr>))"
  | (op1) "\<not> (i + 2 < length s \<and> substr s i 3 \<in> set multi_char_operators)"
      "\<not> (i + 1 < length s \<and> substr s i 2 \<in> set multi_char_operators)"
      "s ! i \<in> set single_char_operators"
      "scan_iteration s st =
         (True, addToken [s ! i] ''OPERATOR'' ln (st\<lparr>current_char_index := i + 1\<rparr>))"
  | (special) "s ! i \<in> set special_chars" "s ! i \<noteq> CHR ''#''"
      "scan_iteration s st =
         (True, (addToken [s ! i] ''SPECIAL CHARACTER'' ln st)\<lparr>current_char_index := i + 1\<rparr>)"
  | (word) "\<not> (i + 2 < length s \<and> substr s i 3 \<in> set multi_char_operators)"
      "isalpha (s ! i) \<or> s ! i = CHR ''_''"
      "scan_iteration s st =
         (True, addToken (snd (word_loop s i []))
                  (if snd (word_loop s i []) \<in> set keywords_set then ''KEYWORD'' else ''IDENTIFIER'')
                  ln (st\<lparr>current_char_index := fst (word_loop s i [])\<rparr>))"
  | (number) "isdigit (s ! i)"
      "scan_iteration s st =
         (case number_loop s ln i [] False (tokens st) of
            (j, number, has_radix_point, toks) \<Rightarrow>
              (True, st\<lparr>current_char_index := j,
                         tokens := (if \<not> has_radix_point
                                    then toks @ [mkToken number ''NUMERIC CONSTANT'' ln]
                                    else toks)\<rparr>))"
  | (unexpected) "s ! i \<noteq> CHR 0x0A" "\<not> isspace (s ! i)" "s ! i \<noteq> CHR ''#''"
      "s ! i \<notin> set single_char_operators" "s ! i \<notin> set special_chars"
      "\<not> isalpha (s ! i)" "s ! i \<noteq> CHR ''_''" "\<not> isdigit (s ! i)"
      "scan_iteration s st = (False, st\<lparr>unexpected_char := s ! i, unexpected_char_error := True\<rparr>)"
proof -
  let ?c = "s ! i"
  let ?r = "block_comment_loop s (i + 2) ln"
  let ?op3 = "i + 2 < length s \<and> substr s i 3 \<in> set multi_char_operators"
  let ?op2 = "i + 1 < length s \<and> substr s i 2 \<in> set multi_char_operators"
  note defs = scan_iteration_def Let_def i_def [symmetric] ln_def [symmetric]
  consider (c1) "?c = CHR 0x0A"
    | (c2) "?c \<noteq> CHR 0x0A" "isspace ?c"
    | (c3) "?c \<noteq> CHR 0x0A" "\<not> isspace ?c" "?c = CHR ''/''" "i + 1 < length s" "s ! (i + 1) = CHR ''/''"
    | (c4) "?c \<noteq> CHR 0x0A" "\<not> isspace ?c" "?c = CHR ''/''" "i + 1 < length s" "s ! (i + 1) = CHR ''*''"
    | (c5) "?c \<noteq> CHR 0x0A" "\<not> isspace ?c"
           "\<not> (?c = CHR ''/'' \<and> i + 1 < length s \<and> s ! (i + 1) = CHR ''/'')"
           "\<not> (?c = CHR ''/'' \<and> i + 1 < length s \<and> s ! (i + 1) = CHR ''*'')"
    by blast
  then show thesis
  proof cases
    case c1
    show ?thesis by (rule newline) (use c1 in \<open>simp_all add: defs addToken_def cong: conj_cong\<close>)
  next
    case c2
    show ?thesis by (rule space) (use c2 in \<open>simp_all add: defs addToken_def cong: conj_cong\<close>)
  next
    case c3
    show ?thesis by (rule line_comment) (use c3 in \<open>simp_all add: defs addToken_def cong: conj_cong\<close>)
  next
    case c4
    show ?thesis
    proof (cases "fst ?r + 1 \<ge> length s")
      case True
      show ?thesis by (rule unterminated) (use c4 True in \<open>simp_all add: defs addToken_def cong: conj_cong\<close>)
    next
      case False
      show ?thesis by (rule block_comment) (use c4 False in \<open>simp_all add: defs addToken_def cong: conj_cong\<close>)
    qed
  next
    case c5
    note pre = c5
    consider (d1) "?c = CHR ''#''"
      | (d2) "?c \<noteq> CHR ''#''" ?op3
      | (d3) "?c \<noteq> CHR ''#''" "\<not> ?op3" ?op2
      | (d4) "?c \<noteq> CHR ''#''" "\<not> ?op3" "\<not> ?op2" "?c \<in> set single_char_operators"
      | (d5) "?c \<noteq> CHR ''#''" "\<not> ?op3" "\<not> ?op2" "?c \<notin> set single_char_operators"
             "?c \<in> set special_chars"
      | (d6) "?c \<noteq> CHR ''#''" "\<not> ?op3" "\<not> ?op2" "?c \<notin> set single_char_operators"
             "?c \<notin> set special_chars" "isalpha ?c \<or> ?c = CHR ''_''"
      | (d7) "?c \<noteq> CHR ''#''" "\<not> ?op3" "\<not> ?op2" "?c \<notin> set single_char_operators"
             "?c \<notin> set special_chars" "\<not> (isalpha ?c \<or> ?c = CHR ''_'')" "isdigit ?c"
      | (d8) "?c \<noteq> CHR ''#''" "\<not> ?op3" "\<not> ?op2" "?c \<notin> set single_char_operators"
             "?c \<notin> set special_chars" "\<not> (isalpha ?c \<or> ?c = CHR ''_'')" "\<not> isdigit ?c"
      by blast
    then show ?thesis
    proof cases
      case d1
      show ?thesis by (rule directive) (use pre d1 in \<open>simp_all add: defs addToken_def cong: conj_cong\<close>)
    next
      case d2
      show ?thesis by (rule op3) (use pre d2 in \<open>simp_all add: defs addToken_def cong: conj_cong\<close>)
    next
      case d3
      show ?thesis by (rule op2) (use pre d3 in \<open>simp_all add: defs addToken_def cong: conj_cong\<close>)
    next
      case d4
      show ?thesis by (rule op1) (use pre d4 in \<open>simp_all add: defs addToken_def cong: conj_cong\<close>)
    next
      case d5
      from d5(5) have "?c \<noteq> CHR 0x27" by (rule special_not_quote)
      then show ?thesis by (rule_tac special) (use pre d5 in \<open>simp_all add: defs addToken_def cong: conj_cong\<close>)
    next
      case d6
      show ?thesis by (rule word) (use pre d6 in \<open>simp_all add: defs addToken_def cong: conj_cong\<close>)
    next
      case d7
      show ?thesis by (rule number) (use pre d7 in \<open>simp_all add: defs addToken_def cong: conj_cong\<close>)
    next
      case d8
      from d8(5) have "?c \<noteq> CHR ''.''" using dot_special by auto
      then show ?thesis by (rule_tac unexpected) (use pre d8 in \<open>simp_all add: defs addToken_def cong: conj_cong\<close>)
    qed
  qed
qed


lemma scan_iteration_progress:
  assumes "current_char_index st < length s" "fst (scan_iteration s st)"
  shows "current_char_index st < current_char_index (snd (scan_iteration s st))"
proof (cases rule: scan_iteration_cases [of s st])
  case line_comment
  then show ?thesis using comment_loop_gt [of "current_char_index st" s]
    by (simp add: addToken_def)
next
  case unterminated
  with assms show ?thesis by simp
next
  case block_comment
  then show ?thesis
    using block_comment_loop_ge [of "current_char_index st + 2" s "current_line st"]
    by (simp add: addToken_def)
next
  case directive
  then show ?thesis using assms directive_loop_gt [of "current_char_index st" s "[]"]
    by (simp add: addToken_def)
next
  case word
  then show ?thesis using assms word_loop_gt [of "current_char_index st" s "[]"]
    by (auto simp: addToken_def isalnum_def)
next
  case number
  then show ?thesis
    using assms number_loop_gt [of "current_char_index st" s "current_line st" "[]" False "tokens st"]
    by (auto split: prod.splits)
next
  case unexpected
  with assms show ?thesis by simp
qed (simp_all add: addToken_def)

subsection \<open>The main loop and \<open>scan\<close>\<close>

function scan_loop :: "string \<Rightarrow> scan_state \<Rightarrow> scan_state" where
  "scan_loop s st =
     (if current_char_index st < length s then
        (let r = scan_iteration s st
         in if fst r then scan_loop s (snd r) else snd r)
      else st)"
  by pat_completeness auto
termination
proof (relation "measure (\<lambda>(s, st). length s - current_char_index st)", goal_cases)
  case 1
  show ?case by simp
next
  case (2 s st r)
  then have "current_char_index st < current_char_index (snd (scan_iteration s st))"
    using scan_iteration_progress [of st s] by simp
  with 2 show ?case by simp
qed

declare scan_loop.simps [simp del]

text \<open>
  \<open>scan\<close>, lines 40-347: an empty source sets the line count to 0 and returns; otherwise
  the line count starts at 1 and the main loop runs from index 0. The globals start from
  their static initial values (one scan per process).
\<close>

definition scan :: "string \<Rightarrow> scan_state" where
  "scan source_code =
     (if source_code = [] then initial_state\<lparr>current_line := 0\<rparr>
      else scan_loop source_code (initial_state\<lparr>current_line := 1\<rparr>))"

section \<open>The token file and its loader (C_lange_Parser_in_Cpp.cpp, lines 457-495)\<close>

subsection \<open>Library functions of \<open>std::string\<close>\<close>

text \<open>
  \<open>line.find(c)\<close> and \<open>line.rfind(c)\<close>: the index of the first and of the last occurrence,
  \<open>None\<close> for \<open>npos\<close>.
\<close>

definition find_char :: "string \<Rightarrow> char \<Rightarrow> nat option" where
  "find_char s c =
     (if c \<in> set s then Some (length (takeWhile (\<lambda>x. x \<noteq> c) s)) else None)"

definition rfind_char :: "string \<Rightarrow> char \<Rightarrow> nat option" where
  "rfind_char s c =
     (if c \<in> set s then Some (length s - 1 - length (takeWhile (\<lambda>x. x \<noteq> c) (rev s)))
      else None)"

text \<open>
  Arithmetic on \<open>size_t\<close> (64 bits): a difference wraps around instead of going negative.
\<close>

definition size_sub :: "nat \<Rightarrow> nat \<Rightarrow> nat" where
  "size_sub a b = nat ((int a - int b) mod 2 ^ 64)"

text \<open>
  \<open>s.substr(pos, n)\<close> in full: \<open>std::out_of_range\<close> when \<open>pos > s.size()\<close>, otherwise at
  most \<open>n\<close> characters from \<open>pos\<close>.
\<close>

datatype load_error = Out_Of_Range

definition substr_checked :: "string \<Rightarrow> nat \<Rightarrow> nat \<Rightarrow> load_error + string" where
  "substr_checked s pos n = (if pos > length s then Inl Out_Of_Range else Inr (take n (drop pos s)))"

text \<open>
  \<open>std::stoi\<close>, base 10: leading whitespace is skipped, then an optional sign, then the
  longest run of digits; no digit is \<open>std::invalid_argument\<close>, a value outside \<open>int\<close>
  (32 bits) is \<open>std::out_of_range\<close>. The loader catches both alike, so both are \<open>None\<close>.
\<close>

definition decimal :: "string \<Rightarrow> int" where
  "decimal ds = foldl (\<lambda>a c. 10 * a + (int (of_char c) - 48)) 0 ds"

definition stoi :: "string \<Rightarrow> int option" where
  "stoi str =
     (let s1 = dropWhile isspace str;
          negative = (s1 \<noteq> [] \<and> hd s1 = CHR ''-'');
          s2 = (if s1 \<noteq> [] \<and> (hd s1 = CHR ''-'' \<or> hd s1 = CHR ''+'') then tl s1 else s1);
          ds = takeWhile isdigit s2;
          v = (if negative then - decimal ds else decimal ds)
      in if ds = [] then None
         else if v < - (2 ^ 31) \<or> v > 2 ^ 31 - 1 then None
         else Some v)"

subsection \<open>Printing numbers\<close>

text \<open>\<open>operator<<\<close> on an integer: its decimal digits, with a minus sign when negative.\<close>

fun string_of_nat :: "nat \<Rightarrow> string" where
  "string_of_nat n =
     (if n < 10 then [''0123456789'' ! n]
      else string_of_nat (n div 10) @ [''0123456789'' ! (n mod 10)])"

declare string_of_nat.simps [simp del]

definition string_of_int :: "int \<Rightarrow> string" where
  "string_of_int i = (if i < 0 then CHR ''-'' # string_of_nat (nat (- i)) else string_of_nat (nat i))"

subsection \<open>The loader\<close>

text \<open>
  What \<open>load_tokens_from_file\<close> leaves behind: the tokens it returns, the lines written
  to the error channel and the lines written to standard output.
\<close>

record loaded =
  loaded_tokens :: "Token list"
  cerr :: "string list"
  cout :: "string list"

text \<open>
  The loop over the lines that \<open>getline\<close> delivers. A line shorter than 5 characters is
  passed over; a line without two distinct commas is reported and passed over; the three
  fields are cut out with \<open>substr\<close>, whose exception nothing catches; a line number that
  \<open>stoi\<close> rejects is reported and the line passed over.
\<close>

fun load_lines :: "string list \<Rightarrow> Token list \<Rightarrow> string list \<Rightarrow> load_error + (Token list \<times> string list)"
where
  "load_lines [] toks errs = Inr (toks, errs)"
| "load_lines (line # rest) toks errs =
     (if length line < 5 then load_lines rest toks errs
      else
        let first_comma = find_char line CHR '',''; last_comma = rfind_char line CHR '','' in
        if first_comma = None \<or> last_comma = None \<or> first_comma = last_comma then
          load_lines rest toks (errs @ [''Warning: Malformed token line, skipping: '' @ line])
        else
          let f = the first_comma; l = the last_comma in
          case substr_checked line 1 (size_sub f 1) of
            Inl e \<Rightarrow> Inl e
          | Inr cls \<Rightarrow>
          (case substr_checked line (f + 2) (size_sub l (f + 2)) of
            Inl e \<Rightarrow> Inl e
          | Inr val \<Rightarrow>
          (case substr_checked line (l + 2) (size_sub (size_sub (length line) (l + 2)) 1) of
            Inl e \<Rightarrow> Inl e
          | Inr line_str \<Rightarrow>
          (case stoi line_str of
             None \<Rightarrow>
               load_lines rest toks
                 (errs @ [''Warning: Malformed line number '' @ [CHR 0x27] @ line_str @ [CHR 0x27]
                          @ '', skipping line: '' @ line])
           | Some n \<Rightarrow>
               load_lines rest
                 (toks @ [\<lparr>token_value = val, token_class = cls, line_number = n\<rparr>]) errs))))"

text \<open>
  \<open>load_tokens_from_file\<close>: the file is the list of its lines, \<open>None\<close> when it cannot be
  opened.
\<close>

definition load_tokens_from_file :: "string \<Rightarrow> string list option \<Rightarrow> load_error + loaded" where
  "load_tokens_from_file filename file =
     (case file of
        None \<Rightarrow>
          Inr \<lparr>loaded_tokens = [],
               cerr = [''Fatal Error: Could not open token file '' @ [CHR 0x27] @ filename @ [CHR 0x27]],
               cout = []\<rparr>
      | Some lines \<Rightarrow>
          (case load_lines lines [] [] of
             Inl e \<Rightarrow> Inl e
           | Inr (toks, errs) \<Rightarrow>
               Inr \<lparr>loaded_tokens = toks, cerr = errs,
                    cout = [''Token file loaded. '' @ string_of_nat (length toks) @ '' tokens read.'']\<rparr>))"

section \<open>The main program of the scanner (scanner.cpp, lines 350-436)\<close>

text \<open>
  \<open>main\<close> from line 377 on, where the file has been read into \<open>source_code\<close>: what it
  writes to standard output and to the error channel, the lines of \<open>tokens.txt\<close> if it
  writes the file, and the status it returns. Whether \<open>tokens.txt\<close> can be created is a
  fact of the file system and is the second argument.
\<close>

record scanner_run =
  printed :: "string list"
  complaints :: "string list"
  tokens_txt :: "string list option"
  exit_status :: int

definition token_line :: "Token \<Rightarrow> string" where
  "token_line t =
     ''<'' @ token_class t @ '', '' @ token_value t @ '', '' @ string_of_int (line_number t) @ ''>''"

definition scanner_main :: "string \<Rightarrow> bool \<Rightarrow> scanner_run" where
  "scanner_main source_code output_opens =
     (let st = scan source_code in
      if source_code = [] then
        \<lparr>printed = ['''', ''your source C-program is empty.. no code to scan''],
         complaints = [], tokens_txt = None, exit_status = 1\<rparr>
      else if unterminated_comment_error st then
        \<lparr>printed = [''ERROR: Unterminated multi-line comment at end of file!'',
                    ''click enter to end the program''],
         complaints = [], tokens_txt = None, exit_status = 1\<rparr>
      else if unexpected_char_error st then
        \<lparr>printed = [''ERROR : AN UNEXPECTED CHARACTER '' @ [CHR 0x27, unexpected_char st, CHR 0x27]
                      @ ''IS FOUND!! at line #'' @ string_of_int (current_line st),
                    ''click enter to end the program''],
         complaints = [], tokens_txt = None, exit_status = 1\<rparr>
      else if \<not> output_opens then
        \<lparr>printed = [],
         complaints = [''Error: Could not create output file '' @ [CHR 0x27] @ ''tokens.txt''
                         @ [CHR 0x27]],
         tokens_txt = None, exit_status = 1\<rparr>
      else
        \<lparr>printed = [''Scanning complete.'', '' Output written to tokens.txt'',
                    ''Kindly note that the output (the .txt file) is located at the same directory as this C++ programm.'',
                    ''the size of your source C-program in lines is : ''
                      @ string_of_int (current_line st) @ ''  line(s)'',
                    ''All done .. click enter to end the program''],
         complaints = [], tokens_txt = Some (map token_line (tokens st)), exit_status = 0\<rparr>)"

text \<open>
  The line of a position of the source text: one more than the number of newlines before
  it.
\<close>

definition newlines :: "string \<Rightarrow> nat" where
  "newlines xs = length (filter (\<lambda>c. c = CHR 0x0A) xs)"

definition line_of :: "string \<Rightarrow> nat \<Rightarrow> int" where
  "line_of s i = 1 + int (newlines (take i s))"

text \<open>
  The state in which \<open>scan\<close> enters its main loop on a source text that is not empty, and
  a state in which neither error flag is set.
\<close>

definition loop_start :: scan_state where
  "loop_start = initial_state\<lparr>current_line := 1\<rparr>"

definition no_error :: "scan_state \<Rightarrow> bool" where
  "no_error st \<longleftrightarrow> \<not> unexpected_char_error st \<and> \<not> unterminated_comment_error st"

section \<open>The parser (C_lange_Parser_in_Cpp.cpp, lines 18-453)\<close>

subsection \<open>The tree\<close>

text \<open>
  \<open>struct ParseNode\<close>: the fields \<open>type\<close>, \<open>value\<close>, \<open>line\<close> and \<open>children\<close>. A node owns its
  children, so the pointers of the source are the subtrees themselves.
\<close>

datatype ParseNode =
  ParseNode (ntype: string) (nvalue: string) (nline: int) (children: "ParseNode list")

subsection \<open>Errors\<close>

text \<open>
  Every \<open>throw runtime_error\<close> of the parser follows a call of \<open>report_error\<close>, which
  writes one diagnostic: the place (\<open>None\<close> for "End of File", otherwise the line that is
  printed) and the message. \<open>Out_Of_Fuel\<close> is not an outcome of the program: the parsing
  functions below take a bound on the depth of calls, and this is the result when the
  bound is too small.
\<close>

datatype parse_error = Syntax_Error "int option" string | Out_Of_Fuel

text \<open>
  A parsing function returns the error, or its value and the cursor after it. \<open>bind r f\<close>
  is \<open>r\<close> followed by \<open>f\<close>, which is given the cursor after \<open>r\<close> and the value of \<open>r\<close>; an
  error of \<open>r\<close> (the exception) passes through.
\<close>

definition bind ::
  "parse_error + ('a \<times> nat) \<Rightarrow> (nat \<Rightarrow> 'a \<Rightarrow> parse_error + ('b \<times> nat)) \<Rightarrow> parse_error + ('b \<times> nat)"
where
  "bind r f = (case r of Inl e \<Rightarrow> Inl e | Inr (a, p) \<Rightarrow> f p a)"

lemma bind_simps [simp]:
  "bind (Inl e) f = Inl e"
  "bind (Inr (a, p)) f = f p a"
  by (simp_all add: bind_def)

subsection \<open>The utility methods\<close>

text \<open>
  The token vector \<open>m_tokens\<close> is fixed for one parser; the cursor \<open>m_current_pos\<close> is the
  state. Each method takes the cursor and, where it moves it, returns the new one.
\<close>

definition is_at_end :: "Token list \<Rightarrow> nat \<Rightarrow> bool" where
  "is_at_end m_tokens m_current_pos \<longleftrightarrow> m_current_pos \<ge> length m_tokens"

function skip_comments :: "Token list \<Rightarrow> nat \<Rightarrow> nat" where
  "skip_comments ts pos =
     (if \<not> is_at_end ts pos \<and>
         (token_class (ts ! pos) = ''Single-Line Comment'' \<or>
          token_class (ts ! pos) = ''Multi-Line Comment'')
      then skip_comments ts (pos + 1) else pos)"
  by pat_completeness auto
termination
  by (relation "measure (\<lambda>(ts, pos). length ts - pos)") (auto simp: is_at_end_def)

declare skip_comments.simps [simp del]

definition eof_token :: Token where
  "eof_token = \<lparr>token_value = '''', token_class = ''EOF'', line_number = - 1\<rparr>"

text \<open>
  \<open>peek\<close> skips comments, which moves the cursor, and returns the token under it (the
  end-of-file token past the end). So after \<open>peek\<close> at \<open>pos\<close> the cursor is
  \<open>skip_comments ts pos\<close>, and the functions below read the token and the cursor so.
\<close>

definition peek :: "Token list \<Rightarrow> nat \<Rightarrow> Token" where
  "peek ts pos =
     (let p = skip_comments ts pos
      in if is_at_end ts p then eof_token else ts ! p)"

text \<open>
  \<open>lookahead\<close>: from the cursor after comments, \<open>offset\<close> times one token forward and over
  the comments that follow; the cursor itself only skips the comments under it.
\<close>

fun lookahead_loop :: "Token list \<Rightarrow> nat \<Rightarrow> nat \<Rightarrow> nat" where
  "lookahead_loop ts lookahead_pos 0 = lookahead_pos"
| "lookahead_loop ts lookahead_pos (Suc offset) =
     (if lookahead_pos < length ts
      then lookahead_loop ts (skip_comments ts (lookahead_pos + 1)) offset
      else lookahead_pos)"

definition lookahead :: "Token list \<Rightarrow> nat \<Rightarrow> nat \<Rightarrow> Token" where
  "lookahead ts pos offset =
     (let p = skip_comments ts pos;
          lookahead_pos = lookahead_loop ts p offset
      in if lookahead_pos \<ge> length ts then eof_token else ts ! lookahead_pos)"

definition advance :: "Token list \<Rightarrow> nat \<Rightarrow> nat" where
  "advance ts pos = (if \<not> is_at_end ts pos then pos + 1 else pos)"

definition report_error :: "Token list \<Rightarrow> nat \<Rightarrow> string \<Rightarrow> parse_error" where
  "report_error ts pos message =
     Syntax_Error (if is_at_end ts pos then None else Some (line_number (peek ts pos)))
       message"

text \<open>\<open>match\<close>; an empty \<open>expected_value\<close> is the default argument and accepts any value.\<close>

definition match :: "Token list \<Rightarrow> nat \<Rightarrow> string \<Rightarrow> string \<Rightarrow> parse_error + (Token \<times> nat)" where
  "match ts pos expected_class expected_value =
     (let p = skip_comments ts pos; token = peek ts pos in
        if token_class token = expected_class \<and>
           (expected_value = [] \<or> token_value token = expected_value)
        then Inr (token, advance ts p)
        else Inl (report_error ts p
               (''Expected '' @ expected_class
                @ (if expected_value \<noteq> []
                   then '' with value '' @ [CHR 0x27] @ expected_value @ [CHR 0x27] else [])
                @ '', but got '' @ token_class token
                @ '' with value '' @ [CHR 0x27] @ token_value token @ [CHR 0x27])))"

subsection \<open>Statements and expressions\<close>

text \<open>
  The recursive-descent functions call one another. Each is written here as its body,
  a function of \<open>call\<close>, which stands for the functions it may call: \<open>call Expression\<close> is
  \<open>parse_expression\<close>, and so on. A loop of the source that contains calls is a production
  of its own, named after the function it belongs to, and carries the node that the loop
  extends (\<open>left_node\<close>, or the node whose children are appended).
\<close>

type_synonym parser = "Token list \<Rightarrow> nat \<Rightarrow> parse_error + (ParseNode \<times> nat)"

datatype production =
    Variable_declaration | Declarators_loop ParseNode
  | Statement | Block_statement | Block_loop ParseNode
  | If_statement | Return_statement | Expression_statement | For_statement
  | Expression | Assignment
  | Equality | Equality_loop ParseNode
  | Relational | Relational_loop ParseNode
  | Additive | Additive_loop ParseNode
  | Multiplicative | Multiplicative_loop ParseNode
  | Primary

text \<open>\<open>node->children.push_back(child)\<close>.\<close>

definition push_back :: "ParseNode \<Rightarrow> ParseNode \<Rightarrow> ParseNode" where
  "push_back node child =
     ParseNode (ntype node) (nvalue node) (nline node) (children node @ [child])"

text \<open>The node of a binary operator over the two operands (lines 390-393 and alike).\<close>

definition binary_node :: "Token \<Rightarrow> ParseNode \<Rightarrow> ParseNode \<Rightarrow> ParseNode" where
  "binary_node op left_node right_node =
     ParseNode ''BinaryExpression'' (token_value op) (line_number op) [left_node, right_node]"

definition parse_variable_declaration_body :: "(production \<Rightarrow> parser) \<Rightarrow> parser" where
  "parse_variable_declaration_body call ts pos =
     (let p = skip_comments ts pos; t = peek ts pos in
      let start_line = line_number t;
          decl_statement_node = ParseNode ''VariableDeclarationStatement'' [] start_line []
      in
      bind (if token_value t = ''const''
            then bind (match ts p ''KEYWORD'' ''const'') (\<lambda>p' k.
                 Inr (push_back decl_statement_node
                        (ParseNode ''Keyword'' (token_value k) (line_number k) []), p'))
            else Inr (decl_statement_node, p)) (\<lambda>p1 node1.
      bind (match ts p1 ''KEYWORD'' []) (\<lambda>p2 type_token.
      bind (call (Declarators_loop
                    (push_back node1
                       (ParseNode ''TypeSpecifier'' (token_value type_token)
                          (line_number type_token) []))) ts p2) (\<lambda>p3 node2.
      bind (match ts p3 ''SPECIAL CHARACTER'' '';'') (\<lambda>p4 _.
      Inr (node2, p4))))))"

text \<open>The \<open>do ... while\<close> of lines 210-223: one declarator, then again after a comma.\<close>

definition declarators_loop_body :: "(production \<Rightarrow> parser) \<Rightarrow> ParseNode \<Rightarrow> parser" where
  "declarators_loop_body call decl_statement_node ts pos =
     (let p = skip_comments ts pos; t = peek ts pos in
      bind (if token_value t = '',''
            then match ts p ''SPECIAL CHARACTER'' '','' else Inr (t, p)) (\<lambda>p1 _.
      bind (match ts p1 ''IDENTIFIER'' []) (\<lambda>p2 var_token.
      let declarator_node = ParseNode ''Declarator'' (token_value var_token)
                              (line_number var_token) []
      in
      let p3 = skip_comments ts p2; t2 = peek ts p2 in
      bind (if token_value t2 = ''=''
            then bind (match ts p3 ''OPERATOR'' ''='') (\<lambda>p4 _.
                 let p5 = skip_comments ts p4; t4 = peek ts p4 in
                 bind (call Expression ts p5) (\<lambda>p6 e.
                 Inr (push_back declarator_node
                        (ParseNode ''Initializer'' ''='' (line_number t4) [e]), p6)))
            else Inr (declarator_node, p3)) (\<lambda>p7 declarator_node'.
      let node' = push_back decl_statement_node declarator_node'
      in let p8 = skip_comments ts p7; t8 = peek ts p7 in
         if token_value t8 = '','' then call (Declarators_loop node') ts p8
         else Inr (node', p8)))))"

definition parse_statement_body :: "(production \<Rightarrow> parser) \<Rightarrow> parser" where
  "parse_statement_body call ts pos =
     (let p = skip_comments ts pos; t = peek ts pos in
      if token_value t = ''if'' then call If_statement ts p
      else if token_value t = ''for'' then call For_statement ts p
      else if token_value t = ''return'' then call Return_statement ts p
      else if token_value t = ''{'' then call Block_statement ts p
      else if token_value t = '';'' then
        bind (match ts p ''SPECIAL CHARACTER'' '';'') (\<lambda>p1 _.
        Inr (ParseNode ''EmptyStatement'' '';'' (line_number t) [], p1))
      else if token_value t = ''const'' \<or> token_value t = ''int'' \<or>
              token_value t = ''float'' \<or> token_value t = ''char''
        then call Variable_declaration ts p
      else call Expression_statement ts p)"

definition parse_block_statement_body :: "(production \<Rightarrow> parser) \<Rightarrow> parser" where
  "parse_block_statement_body call ts pos =
     (let p = skip_comments ts pos; t = peek ts pos in
      let start_line = line_number t in
      bind (match ts p ''SPECIAL CHARACTER'' ''{'') (\<lambda>p1 _.
      bind (call (Block_loop (ParseNode ''BlockStatement'' ''{}'' start_line [])) ts p1)
        (\<lambda>p2 block_node.
      bind (match ts p2 ''SPECIAL CHARACTER'' ''}'') (\<lambda>p3 _.
      Inr (block_node, p3)))))"

text \<open>The \<open>while\<close> of lines 250-252.\<close>

definition block_loop_body :: "(production \<Rightarrow> parser) \<Rightarrow> ParseNode \<Rightarrow> parser" where
  "block_loop_body call block_node ts pos =
     (let p = skip_comments ts pos; t = peek ts pos in
      if token_value t \<noteq> ''}''
      then bind (call Statement ts p) (\<lambda>p1 st.
           call (Block_loop (push_back block_node st)) ts p1)
      else Inr (block_node, p))"

definition parse_if_statement_body :: "(production \<Rightarrow> parser) \<Rightarrow> parser" where
  "parse_if_statement_body call ts pos =
     (let p = skip_comments ts pos; t = peek ts pos in
      let start_line = line_number t in
      bind (match ts p ''KEYWORD'' ''if'') (\<lambda>p1 _.
      bind (match ts p1 ''SPECIAL CHARACTER'' ''('') (\<lambda>p2 _.
      bind (call Expression ts p2) (\<lambda>p3 cond.
      bind (match ts p3 ''SPECIAL CHARACTER'' '')'') (\<lambda>p4 _.
      bind (call Statement ts p4) (\<lambda>p5 then_st.
      let p6 = skip_comments ts p5; t6 = peek ts p5 in
      if token_value t6 = ''else''
      then bind (match ts p6 ''KEYWORD'' ''else'') (\<lambda>p7 _.
           bind (call Statement ts p7) (\<lambda>p8 else_st.
           Inr (ParseNode ''IfStatement'' ''if'' start_line [cond, then_st, else_st], p8)))
      else Inr (ParseNode ''IfStatement'' ''if'' start_line [cond, then_st], p6)))))))"

definition parse_return_statement_body :: "(production \<Rightarrow> parser) \<Rightarrow> parser" where
  "parse_return_statement_body call ts pos =
     (let p = skip_comments ts pos; t = peek ts pos in
      let start_line = line_number t in
      bind (match ts p ''KEYWORD'' ''return'') (\<lambda>p1 _.
      let p2 = skip_comments ts p1; t2 = peek ts p1 in
      bind (if token_value t2 \<noteq> '';''
            then bind (call Expression ts p2) (\<lambda>p3 e.
                 Inr (ParseNode ''ReturnStatement'' ''return'' start_line [e], p3))
            else Inr (ParseNode ''ReturnStatement'' ''return'' start_line [], p2))
        (\<lambda>p4 return_node.
      bind (match ts p4 ''SPECIAL CHARACTER'' '';'') (\<lambda>p5 _.
      Inr (return_node, p5)))))"

definition parse_expression_statement_body :: "(production \<Rightarrow> parser) \<Rightarrow> parser" where
  "parse_expression_statement_body call ts pos =
     (let p = skip_comments ts pos; t = peek ts pos in
      let start_line = line_number t in
      bind (call Expression ts p) (\<lambda>p1 e.
      bind (match ts p1 ''SPECIAL CHARACTER'' '';'') (\<lambda>p2 _.
      Inr (ParseNode ''ExpressionStatement'' [] start_line [e], p2))))"

text \<open>
  \<open>parse_for_statement\<close>, lines 324-370. The three slots are the three arguments of the
  first three \<open>bind\<close> after the opening parenthesis, each giving the child it pushes.
\<close>

definition parse_for_statement_body :: "(production \<Rightarrow> parser) \<Rightarrow> parser" where
  "parse_for_statement_body call ts pos =
     (let p = skip_comments ts pos; t = peek ts pos in
      let start_line = line_number t in
      bind (match ts p ''KEYWORD'' ''for'') (\<lambda>p1 _.
      bind (match ts p1 ''SPECIAL CHARACTER'' ''('') (\<lambda>p2 _.
      bind (let pi = skip_comments ts p2; ti = peek ts p2 in
            if token_value ti = '';'' then
              bind (match ts pi ''SPECIAL CHARACTER'' '';'') (\<lambda>p' _.
              Inr (ParseNode ''Empty'' ''initializer'' start_line [], p'))
            else if token_value ti = ''int'' \<or> token_value ti = ''char'' \<or>
                    token_value ti = ''float''
              then call Variable_declaration ts pi
            else call Expression_statement ts pi) (\<lambda>p3 init.
      bind (let pc = skip_comments ts p3; tc = peek ts p3 in
            if token_value tc = '';'' then
              bind (match ts pc ''SPECIAL CHARACTER'' '';'') (\<lambda>p' _.
              Inr (ParseNode ''Empty'' ''condition'' start_line [], p'))
            else
              bind (call Expression ts pc) (\<lambda>p' e.
              bind (match ts p' ''SPECIAL CHARACTER'' '';'') (\<lambda>p'' _. Inr (e, p'')))) (\<lambda>p4 cond.
      bind (let pu = skip_comments ts p4; tu = peek ts p4 in
            if token_value tu = '')''
            then Inr (ParseNode ''Empty'' ''increment'' start_line [], pu)
            else call Expression ts pu) (\<lambda>p5 incr.
      bind (match ts p5 ''SPECIAL CHARACTER'' '')'') (\<lambda>p6 _.
      bind (call Statement ts p6) (\<lambda>p7 body.
      Inr (ParseNode ''ForStatement'' ''for'' start_line [init, cond, incr, body], p7)))))))))"

definition parse_assignment_body :: "(production \<Rightarrow> parser) \<Rightarrow> parser" where
  "parse_assignment_body call ts pos =
     (let p = skip_comments ts pos; t = peek ts pos in
      let start_line = line_number t in
      bind (call Equality ts p) (\<lambda>p1 left_node.
      let p2 = skip_comments ts p1; t2 = peek ts p1 in
      if token_value t2 = ''=''
      then bind (match ts p2 ''OPERATOR'' ''='') (\<lambda>p3 op.
           bind (call Assignment ts p3) (\<lambda>p4 right_node.
           Inr (ParseNode ''AssignmentExpression'' (token_value op) start_line
                  [left_node, right_node], p4)))
      else Inr (left_node, p2)))"

definition parse_equality_body :: "(production \<Rightarrow> parser) \<Rightarrow> parser" where
  "parse_equality_body call ts pos =
     bind (call Relational ts pos) (\<lambda>p left_node. call (Equality_loop left_node) ts p)"

definition equality_loop_body :: "(production \<Rightarrow> parser) \<Rightarrow> ParseNode \<Rightarrow> parser" where
  "equality_loop_body call left_node ts pos =
     (let p = skip_comments ts pos; t = peek ts pos in
      if token_value t = ''=='' \<or> token_value t = ''!=''
      then bind (match ts p ''OPERATOR'' []) (\<lambda>p1 op.
           bind (call Relational ts p1) (\<lambda>p2 right_node.
           call (Equality_loop (binary_node op left_node right_node)) ts p2))
      else Inr (left_node, p))"

definition parse_relational_body :: "(production \<Rightarrow> parser) \<Rightarrow> parser" where
  "parse_relational_body call ts pos =
     bind (call Additive ts pos) (\<lambda>p left_node. call (Relational_loop left_node) ts p)"

definition relational_loop_body :: "(production \<Rightarrow> parser) \<Rightarrow> ParseNode \<Rightarrow> parser" where
  "relational_loop_body call left_node ts pos =
     (let p = skip_comments ts pos; t = peek ts pos in
      if token_value t = ''<'' \<or> token_value t = ''>'' \<or>
         token_value t = ''<='' \<or> token_value t = ''>=''
      then bind (match ts p ''OPERATOR'' []) (\<lambda>p1 op.
           bind (call Additive ts p1) (\<lambda>p2 right_node.
           call (Relational_loop (binary_node op left_node right_node)) ts p2))
      else Inr (left_node, p))"

definition parse_additive_body :: "(production \<Rightarrow> parser) \<Rightarrow> parser" where
  "parse_additive_body call ts pos =
     bind (call Multiplicative ts pos) (\<lambda>p left_node. call (Additive_loop left_node) ts p)"

definition additive_loop_body :: "(production \<Rightarrow> parser) \<Rightarrow> ParseNode \<Rightarrow> parser" where
  "additive_loop_body call left_node ts pos =
     (let p = skip_comments ts pos; t = peek ts pos in
      if token_value t = ''+'' \<or> token_value t = ''-''
      then bind (match ts p ''OPERATOR'' []) (\<lambda>p1 op.
           bind (call Multiplicative ts p1) (\<lambda>p2 right_node.
           call (Additive_loop (binary_node op left_node right_node)) ts p2))
      else Inr (left_node, p))"

definition parse_multiplicative_body :: "(production \<Rightarrow> parser) \<Rightarrow> parser" where
  "parse_multiplicative_body call ts pos =
     bind (call Primary ts pos) (\<lambda>p left_node. call (Multiplicative_loop left_node) ts p)"

definition multiplicative_loop_body :: "(production \<Rightarrow> parser) \<Rightarrow> ParseNode \<Rightarrow> parser" where
  "multiplicative_loop_body call left_node ts pos =
     (let p = skip_comments ts pos; t = peek ts pos in
      if token_value t = ''*'' \<or> token_value t = ''/''
      then bind (match ts p ''OPERATOR'' []) (\<lambda>p1 op.
           bind (call Primary ts p1) (\<lambda>p2 right_node.
           call (Multiplicative_loop (binary_node op left_node right_node)) ts p2))
      else Inr (left_node, p))"

definition parse_primary_body :: "(production \<Rightarrow> parser) \<Rightarrow> parser" where
  "parse_primary_body call ts pos =
     (let p = skip_comments ts pos; t = peek ts pos in
      let line = line_number t in
      if token_class t = ''NUMERIC CONSTANT'' then
        bind (match ts p ''NUMERIC CONSTANT'' []) (\<lambda>p1 v.
        Inr (ParseNode ''Constant'' (token_value v) line [], p1))
      else if token_class t = ''IDENTIFIER'' then
        bind (match ts p ''IDENTIFIER'' []) (\<lambda>p1 v.
        Inr (ParseNode ''Identifier'' (token_value v) line [], p1))
      else if token_value t = ''('' then
        bind (match ts p ''SPECIAL CHARACTER'' ''('') (\<lambda>p1 _.
        bind (call Expression ts p1) (\<lambda>p2 expr_node.
        bind (match ts p2 ''SPECIAL CHARACTER'' '')'') (\<lambda>p3 _.
        Inr (expr_node, p3))))
      else Inl (report_error ts p
             ''Expected a value, variable, or expression in parentheses.''))"

text \<open>
  The functions themselves: with no calls left the bound is exhausted; otherwise a
  production runs its body, whose calls have one call less to spend.
\<close>

primrec parse_production :: "nat \<Rightarrow> production \<Rightarrow> parser" where
  "parse_production 0 = (\<lambda>k ts pos. Inl Out_Of_Fuel)"
| "parse_production (Suc n) = (\<lambda>k.
     case k of
       Variable_declaration \<Rightarrow> parse_variable_declaration_body (parse_production n)
     | Declarators_loop node \<Rightarrow> declarators_loop_body (parse_production n) node
     | Statement \<Rightarrow> parse_statement_body (parse_production n)
     | Block_statement \<Rightarrow> parse_block_statement_body (parse_production n)
     | Block_loop node \<Rightarrow> block_loop_body (parse_production n) node
     | If_statement \<Rightarrow> parse_if_statement_body (parse_production n)
     | Return_statement \<Rightarrow> parse_return_statement_body (parse_production n)
     | Expression_statement \<Rightarrow> parse_expression_statement_body (parse_production n)
     | For_statement \<Rightarrow> parse_for_statement_body (parse_production n)
     | Expression \<Rightarrow> parse_production n Assignment
     | Assignment \<Rightarrow> parse_assignment_body (parse_production n)
     | Equality \<Rightarrow> parse_equality_body (parse_production n)
     | Equality_loop left_node \<Rightarrow> equality_loop_body (parse_production n) left_node
     | Relational \<Rightarrow> parse_relational_body (parse_production n)
     | Relational_loop left_node \<Rightarrow> relational_loop_body (parse_production n) left_node
     | Additive \<Rightarrow> parse_additive_body (parse_production n)
     | Additive_loop left_node \<Rightarrow> additive_loop_body (parse_production n) left_node
     | Multiplicative \<Rightarrow> parse_multiplicative_body (parse_production n)
     | Multiplicative_loop left_node \<Rightarrow> multiplicative_loop_body (parse_production n) left_node
     | Primary \<Rightarrow> parse_primary_body (parse_production n))"

text \<open>
  The same, one production at a time: these are the equations of the functions of the
  source, and the form in which the definition is used.
\<close>

lemma parse_production_Suc [simp]:
  "parse_production (Suc n) Variable_declaration = parse_variable_declaration_body (parse_production n)"
  "parse_production (Suc n) (Declarators_loop node) = declarators_loop_body (parse_production n) node"
  "parse_production (Suc n) Statement = parse_statement_body (parse_production n)"
  "parse_production (Suc n) Block_statement = parse_block_statement_body (parse_production n)"
  "parse_production (Suc n) (Block_loop node) = block_loop_body (parse_production n) node"
  "parse_production (Suc n) If_statement = parse_if_statement_body (parse_production n)"
  "parse_production (Suc n) Return_statement = parse_return_statement_body (parse_production n)"
  "parse_production (Suc n) Expression_statement = parse_expression_statement_body (parse_production n)"
  "parse_production (Suc n) For_statement = parse_for_statement_body (parse_production n)"
  "parse_production (Suc n) Expression = parse_production n Assignment"
  "parse_production (Suc n) Assignment = parse_assignment_body (parse_production n)"
  "parse_production (Suc n) Equality = parse_equality_body (parse_production n)"
  "parse_production (Suc n) (Equality_loop node) = equality_loop_body (parse_production n) node"
  "parse_production (Suc n) Relational = parse_relational_body (parse_production n)"
  "parse_production (Suc n) (Relational_loop node) = relational_loop_body (parse_production n) node"
  "parse_production (Suc n) Additive = parse_additive_body (parse_production n)"
  "parse_production (Suc n) (Additive_loop node) = additive_loop_body (parse_production n) node"
  "parse_production (Suc n) Multiplicative = parse_multiplicative_body (parse_production n)"
  "parse_production (Suc n) (Multiplicative_loop node) = multiplicative_loop_body (parse_production n) node"
  "parse_production (Suc n) Primary = parse_primary_body (parse_production n)"
  by simp_all

lemma parse_production_0 [simp]: "parse_production 0 k ts pos = Inl Out_Of_Fuel"
  by simp

declare parse_production.simps [simp del]

abbreviation parse_variable_declaration :: "nat \<Rightarrow> parser" where
  "parse_variable_declaration n \<equiv> parse_production n Variable_declaration"

abbreviation parse_statement :: "nat \<Rightarrow> parser" where
  "parse_statement n \<equiv> parse_production n Statement"

abbreviation parse_block_statement :: "nat \<Rightarrow> parser" where
  "parse_block_statement n \<equiv> parse_production n Block_statement"

abbreviation parse_if_statement :: "nat \<Rightarrow> parser" where
  "parse_if_statement n \<equiv> parse_production n If_statement"

abbreviation parse_return_statement :: "nat \<Rightarrow> parser" where
  "parse_return_statement n \<equiv> parse_production n Return_statement"

abbreviation parse_expression_statement :: "nat \<Rightarrow> parser" where
  "parse_expression_statement n \<equiv> parse_production n Expression_statement"

abbreviation parse_for_statement :: "nat \<Rightarrow> parser" where
  "parse_for_statement n \<equiv> parse_production n For_statement"

abbreviation parse_expression :: "nat \<Rightarrow> parser" where
  "parse_expression n \<equiv> parse_production n Expression"

abbreviation parse_assignment :: "nat \<Rightarrow> parser" where
  "parse_assignment n \<equiv> parse_production n Assignment"

abbreviation parse_equality :: "nat \<Rightarrow> parser" where
  "parse_equality n \<equiv> parse_production n Equality"

abbreviation parse_relational :: "nat \<Rightarrow> parser" where
  "parse_relational n \<equiv> parse_production n Relational"

abbreviation parse_additive :: "nat \<Rightarrow> parser" where
  "parse_additive n \<equiv> parse_production n Additive"

abbreviation parse_multiplicative :: "nat \<Rightarrow> parser" where
  "parse_multiplicative n \<equiv> parse_production n Multiplicative"

abbreviation parse_primary :: "nat \<Rightarrow> parser" where
  "parse_primary n \<equiv> parse_production n Primary"

subsection \<open>Top level\<close>

definition parse_function_or_prototype ::
  "nat \<Rightarrow> Token list \<Rightarrow> nat \<Rightarrow> parse_error + (ParseNode \<times> nat)"
where
  "parse_function_or_prototype n ts pos =
     (let p = skip_comments ts pos; t = peek ts pos in
      let start_line = line_number t in
      bind (match ts p ''KEYWORD'' []) (\<lambda>p1 type_token.
      bind (match ts p1 ''IDENTIFIER'' []) (\<lambda>p2 name_token.
      bind (match ts p2 ''SPECIAL CHARACTER'' ''('') (\<lambda>p3 _.
      bind (match ts p3 ''SPECIAL CHARACTER'' '')'') (\<lambda>p4 _.
      let p5 = skip_comments ts p4; t5 = peek ts p4 in
      let type_node = ParseNode ''TypeSpecifier'' (token_value type_token)
                        (line_number type_token) []
      in
      if token_value t5 = ''{'' then
        bind (parse_block_statement n ts p5) (\<lambda>p6 body.
        Inr (ParseNode ''FunctionDefinition'' (token_value name_token) start_line
               [type_node, body], p6))
      else if token_value t5 = '';'' then
        bind (match ts p5 ''SPECIAL CHARACTER'' '';'') (\<lambda>p6 _.
        Inr (ParseNode ''FunctionPrototype'' (token_value name_token) start_line
               [type_node], p6))
      else Inl (report_error ts p5
             (''Expected '' @ [CHR 0x27] @ ''{'' @ [CHR 0x27] @ '' for function body or ''
              @ [CHR 0x27] @ '';'' @ [CHR 0x27] @ '' for prototype after function signature.'')))))))"

definition parse_top_level_declaration ::
  "nat \<Rightarrow> Token list \<Rightarrow> nat \<Rightarrow> parse_error + (ParseNode \<times> nat)"
where
  "parse_top_level_declaration n ts pos =
     (let p = skip_comments ts pos; t = peek ts pos in
      if token_class t = ''PREPROCESSOR DIRECTIVE'' then
        bind (match ts p ''PREPROCESSOR DIRECTIVE'' []) (\<lambda>p1 directive.
        Inr (ParseNode ''PreprocessorDirective'' (token_value directive)
               (line_number directive) [], p1))
      else if token_class t = ''KEYWORD'' \<and>
              (token_value t = ''int'' \<or> token_value t = ''float'' \<or>
               token_value t = ''char'' \<or> token_value t = ''void'' \<or>
               token_value t = ''const'')
      then (let future_token = lookahead ts p 2; p1 = skip_comments ts p in
            if token_value future_token = ''(''
            then parse_function_or_prototype n ts p1
            else parse_variable_declaration n ts p1)
      else Inl (report_error ts p
             ''Unrecognized top-level statement. Expected a global variable or function.''))"

text \<open>
  \<open>parse_program\<close>: the line of the root is 0 for an empty token vector and otherwise the
  line of the first token that \<open>peek\<close> delivers; the loop runs while the cursor itself is
  inside the vector.
\<close>

fun program_loop ::
  "nat \<Rightarrow> Token list \<Rightarrow> ParseNode list \<Rightarrow> nat \<Rightarrow> parse_error + (ParseNode list \<times> nat)"
where
  "program_loop 0 ts cs pos = Inl Out_Of_Fuel"
| "program_loop (Suc n) ts cs pos =
     (if \<not> is_at_end ts pos
      then bind (parse_top_level_declaration n ts pos) (\<lambda>p d. program_loop n ts (cs @ [d]) p)
      else Inr (cs, pos))"

definition parse_program :: "nat \<Rightarrow> Token list \<Rightarrow> parse_error + (ParseNode \<times> nat)" where
  "parse_program n ts =
     (let line = (if ts = [] then 0 else line_number (peek ts 0));
          p = (if ts = [] then 0 else skip_comments ts 0)
      in bind (program_loop n ts [] p) (\<lambda>p1 cs.
         Inr (ParseNode ''Program'' [] line cs, p1)))"

text \<open>
  \<open>Parser::parse\<close>: the tree, or the null pointer after the diagnostic (here the error).
\<close>

definition parse :: "nat \<Rightarrow> Token list \<Rightarrow> parse_error + ParseNode" where
  "parse n ts = (case parse_program n ts of Inl e \<Rightarrow> Inl e | Inr r \<Rightarrow> Inr (fst r))"

section \<open>The segments of a numeric run, as the specification describes them\<close>



section \<open>The kinds of node that stand for an expression\<close>

text \<open>
  The node types that the expression functions build, and the productions that belong
  to expressions; a loop production does when the node it extends is of such a kind.
\<close>

definition expression_kinds :: "string set" where
  "expression_kinds = {''Constant'', ''Identifier'', ''BinaryExpression'', ''AssignmentExpression''}"

fun expression_production :: "production \<Rightarrow> bool" where
  "expression_production Expression = True"
| "expression_production Assignment = True"
| "expression_production Equality = True"
| "expression_production (Equality_loop left_node) = (ntype left_node \<in> expression_kinds)"
| "expression_production Relational = True"
| "expression_production (Relational_loop left_node) = (ntype left_node \<in> expression_kinds)"
| "expression_production Additive = True"
| "expression_production (Additive_loop left_node) = (ntype left_node \<in> expression_kinds)"
| "expression_production Multiplicative = True"
| "expression_production (Multiplicative_loop left_node) = (ntype left_node \<in> expression_kinds)"
| "expression_production Primary = True"
| "expression_production _ = False"

section \<open>Properties of the scanner\<close>

subsection \<open>Substrings and character classes\<close>

lemma substr3: "i + 2 < length s \<Longrightarrow> substr s i 3 = [s ! i, s ! (i + 1), s ! (i + 2)]"
proof -
  assume a: "i + 2 < length s"
  then have "drop i s = s ! i # drop (Suc i) s" by (simp add: Cons_nth_drop_Suc)
  moreover from a have "drop (Suc i) s = s ! (Suc i) # drop (Suc (Suc i)) s"
    by (simp add: Cons_nth_drop_Suc)
  moreover from a have "drop (Suc (Suc i)) s = s ! (Suc (Suc i)) # drop (Suc (Suc (Suc i))) s"
    by (simp add: Cons_nth_drop_Suc)
  ultimately show ?thesis by (simp add: substr_def numeral_3_eq_3)
qed

lemma substr2: "i + 1 < length s \<Longrightarrow> substr s i 2 = [s ! i, s ! (i + 1)]"
proof -
  assume a: "i + 1 < length s"
  then have "drop i s = s ! i # drop (Suc i) s" by (simp add: Cons_nth_drop_Suc)
  moreover from a have "drop (Suc i) s = s ! (Suc i) # drop (Suc (Suc i)) s"
    by (simp add: Cons_nth_drop_Suc)
  ultimately show ?thesis by (simp add: substr_def numeral_2_eq_2)
qed

lemma multi_op_first: "x # xs \<in> set multi_char_operators \<Longrightarrow> x \<in> set ''+-<>=&|*/%^!p''"
  by (auto simp: multi_char_operators_def)





subsection \<open>The numeric rule on a run of digits and radix points\<close>








text \<open>The other two runs of the claim, scanned as whole sources.\<close>

lemma scan_333333333:
  "tokens (scan ''333333333'') = [mkToken ''333333333'' ''NUMERIC CONSTANT'' 1]"
  by code_simp

lemma scan_456: "tokens (scan ''456'') = [mkToken ''456'' ''NUMERIC CONSTANT'' 1]"
  by code_simp

subsection \<open>Operators: the longest match first\<close>

lemma multi_op3_first: "[a, b, c] \<in> set multi_char_operators \<Longrightarrow> a \<in> set ''<>p''"
  by (auto simp: multi_char_operators_def)

lemma op3_char_class:
  assumes "c \<in> set ''<>p''"
  shows "c \<noteq> CHR 0x0A" "\<not> isspace c" "c \<noteq> CHR ''/''" "c \<noteq> CHR ''#''"
     "c \<notin> set special_chars" "\<not> isdigit c"
     "c \<in> set single_char_operators \<or> isalpha c"
  using assms
  by (auto simp: isdigit_def isspace_def isalpha_def single_char_operators_def special_chars_def)

lemma number_loop_new_tokens:
  "\<exists>ts. snd (snd (snd (number_loop s ln i number h toks))) = toks @ ts \<and>
        (\<forall>t\<in>set ts. token_class t = ''NUMERIC CONSTANT'' \<and> line_number t = ln)"
proof (induction s ln i number h toks rule: number_loop.induct)
  case (1 s ln i number h toks)
  let ?r = "digits_loop s (i + 1) (number @ [s ! i])"
  let ?t = "mkToken (snd ?r) ''NUMERIC CONSTANT'' ln"
  consider (dot) "i < length s" "s ! i = CHR ''.''"
    | (digit) "i < length s" "isdigit (s ! i)" "s ! i \<noteq> CHR ''.''"
    | (stop) "\<not> (i < length s \<and> (isdigit (s ! i) \<or> s ! i = CHR ''.''))"
    by blast
  then show ?case
  proof cases
    case dot
    with 1(1) [of ?r] obtain ts where
      ts: "snd (snd (snd (number_loop s ln (fst ?r) [] True (toks @ [?t])))) = (toks @ [?t]) @ ts"
          "\<forall>t\<in>set ts. token_class t = ''NUMERIC CONSTANT'' \<and> line_number t = ln"
      by auto
    have "number_loop s ln i number h toks = number_loop s ln (fst ?r) [] True (toks @ [?t])"
      using dot by (subst number_loop.simps) (simp add: Let_def)
    with ts have "snd (snd (snd (number_loop s ln i number h toks))) = toks @ (?t # ts)"
      by simp
    moreover have "\<forall>t\<in>set (?t # ts). token_class t = ''NUMERIC CONSTANT'' \<and> line_number t = ln"
      using ts(2) by (simp add: mkToken_def)
    ultimately show ?thesis by blast
  next
    case digit
    have "number_loop s ln i number h toks = number_loop s ln (i + 1) (number @ [s ! i]) h toks"
      using digit by (subst number_loop.simps) simp
    with 1(2) digit show ?thesis by simp
  next
    case stop
    then have "number_loop s ln i number h toks = (i, number, h, toks)"
      by (subst number_loop.simps) auto
    then show ?thesis by simp
  qed
qed

lemma scan_iteration_number_tokens:
  assumes "scan_iteration s st =
         (case number_loop s ln i [] False (tokens st) of
            (j, number, has_radix_point, toks) \<Rightarrow>
              (True, st\<lparr>current_char_index := j,
                         tokens := (if \<not> has_radix_point
                                    then toks @ [mkToken number ''NUMERIC CONSTANT'' ln]
                                    else toks)\<rparr>))"
  shows "\<exists>ts. tokens (snd (scan_iteration s st)) = tokens st @ ts \<and>
        (\<forall>t\<in>set ts. token_class t = ''NUMERIC CONSTANT'' \<and> line_number t = ln)"
proof -
  obtain j number hrp toks where nl: "number_loop s ln i [] False (tokens st) = (j, number, hrp, toks)"
    by (metis prod_cases4)
  from number_loop_new_tokens [of s ln i "[]" False "tokens st"] nl
  obtain ts where ts: "toks = tokens st @ ts"
     "\<forall>t\<in>set ts. token_class t = ''NUMERIC CONSTANT'' \<and> line_number t = ln"
    by auto
  show ?thesis
  proof (cases hrp)
    case True
    with assms nl ts show ?thesis by simp
  next
    case False
    with assms nl have "tokens (snd (scan_iteration s st)) =
         tokens st @ (ts @ [mkToken number ''NUMERIC CONSTANT'' ln])"
      using ts(1) by simp
    moreover have "\<forall>t\<in>set (ts @ [mkToken number ''NUMERIC CONSTANT'' ln]).
        token_class t = ''NUMERIC CONSTANT'' \<and> line_number t = ln"
      using ts(2) by (simp add: mkToken_def)
    ultimately show ?thesis by blast
  qed
qed


lemma tokens_addToken [simp]: "tokens (addToken v c l st) = tokens st @ [mkToken v c l]"
  by (simp add: addToken_def)

lemma index_addToken [simp]: "current_char_index (addToken v c l st) = current_char_index st"
  by (simp add: addToken_def)

lemma op3_dispatch:
  assumes "current_char_index st + 2 < length s"
    and "substr s (current_char_index st) 3 \<in> set multi_char_operators"
  shows "scan_iteration s st =
          (True, addToken (substr s (current_char_index st) 3) ''OPERATOR'' (current_line st)
                   (st\<lparr>current_char_index := current_char_index st + 3\<rparr>))"
proof -
  let ?i = "current_char_index st"
  have "s ! ?i \<in> set ''<>p''"
    using assms multi_op3_first by (simp add: substr3)
  note cls = op3_char_class [OF this]
  show ?thesis
  proof (cases rule: scan_iteration_cases [of s st])
    case op3
    then show ?thesis by simp
  next
    case unexpected
    with cls(7) show ?thesis by simp
  qed (use assms cls in simp_all)
qed

lemma multi_op2_chars:
  "[a, b] \<in> set multi_char_operators \<Longrightarrow> a \<in> set ''+-<>=&|*/%^!'' \<and> b \<in> set ''+-<>=&|''"
  by (auto simp: multi_char_operators_def)

lemma single_op_class:
  assumes "c \<in> set single_char_operators"
  shows "c \<noteq> CHR 0x0A" "\<not> isspace c" "c \<noteq> CHR ''#''" "c \<notin> set special_chars"
    "\<not> isdigit c" "\<not> isalpha c" "c \<noteq> CHR ''_''"
  using assms
  by (auto simp: isdigit_def isspace_def isalpha_def single_char_operators_def special_chars_def)

lemma op2_dispatch:
  assumes "\<not> (current_char_index st + 2 < length s \<and>
              substr s (current_char_index st) 3 \<in> set multi_char_operators)"
    and "current_char_index st + 1 < length s"
    and "substr s (current_char_index st) 2 \<in> set multi_char_operators"
  shows "scan_iteration s st =
          (True, addToken (substr s (current_char_index st) 2) ''OPERATOR'' (current_line st)
                   (st\<lparr>current_char_index := current_char_index st + 2\<rparr>))"
proof -
  let ?i = "current_char_index st"
  from assms(2,3) have "[s ! ?i, s ! (?i + 1)] \<in> set multi_char_operators"
    by (simp add: substr2)
  from multi_op2_chars [OF this]
  have a: "s ! ?i \<in> set ''+-<>=&|*/%^!''" and b: "s ! (?i + 1) \<in> set ''+-<>=&|''"
    by simp_all
  from a have "s ! ?i \<in> set single_char_operators" by (auto simp: single_char_operators_def)
  note cls = this single_op_class [OF this]
  from b have nxt: "s ! (?i + 1) \<noteq> CHR ''/''" "s ! (?i + 1) \<noteq> CHR ''*''" by auto
  show ?thesis
  proof (cases rule: scan_iteration_cases [of s st])
    case op2
    then show ?thesis by simp
  next
    case op3
    with assms(1) show ?thesis by simp
  next
    case op1
    with assms(2,3) show ?thesis by simp
  qed (use cls nxt in simp_all)
qed

lemma op1_dispatch:
  assumes "\<not> (current_char_index st + 2 < length s \<and>
              substr s (current_char_index st) 3 \<in> set multi_char_operators)"
    and "\<not> (current_char_index st + 1 < length s \<and>
              substr s (current_char_index st) 2 \<in> set multi_char_operators)"
    and "s ! current_char_index st \<in> set single_char_operators"
    and "\<not> (s ! current_char_index st = CHR ''/'' \<and> current_char_index st + 1 < length s \<and>
            (s ! (current_char_index st + 1) = CHR ''/'' \<or>
             s ! (current_char_index st + 1) = CHR ''*''))"
  shows "scan_iteration s st =
          (True, addToken [s ! current_char_index st] ''OPERATOR'' (current_line st)
                   (st\<lparr>current_char_index := current_char_index st + 1\<rparr>))"
proof -
  note cls = single_op_class [OF assms(3)]
  show ?thesis
  proof (cases rule: scan_iteration_cases [of s st])
    case op1
    then show ?thesis by simp
  next
    case op3
    with assms(1) show ?thesis by simp
  next
    case op2
    with assms(2) show ?thesis by simp
  next
    case line_comment
    with assms(4) show ?thesis by simp
  next
    case unterminated
    with assms(4) show ?thesis by simp
  next
    case block_comment
    with assms(4) show ?thesis by simp
  qed (use assms(3) cls in simp_all)
qed

text \<open>
  Claim C3. Let the main loop arrive at index \<open>i\<close>, and let \<open>st'\<close> be the state after the
  iteration. If the next three characters are a member of the multi-character operator
  set, the iteration appends exactly one token, the OPERATOR token of these three
  characters on the current line, and the index is \<open>i + 3\<close>. If they are not and the next
  two characters are a member, it appends exactly the OPERATOR token of these two, and the
  index is \<open>i + 2\<close>. If neither is and the character at \<open>i\<close> is a single-character
  operator that does not open a comment (a slash followed by a slash or a star is taken
  by the comment check before the operators), the iteration appends exactly the OPERATOR
  token of this one character, and the index is \<open>i + 1\<close>. Conversely, an iteration that
  appends a two-character OPERATOR token did so with the three-character rule not
  matching, and one that appends a one-character OPERATOR token with neither longer rule
  matching.
\<close>

theorem maximal_munch:
  fixes s :: string and st :: scan_state
  defines "i \<equiv> current_char_index st"
  defines "three \<equiv> i + 2 < length s \<and> substr s i 3 \<in> set multi_char_operators"
  defines "two \<equiv> i + 1 < length s \<and> substr s i 2 \<in> set multi_char_operators"
  defines "opens_comment \<equiv> s ! i = CHR ''/'' \<and> i + 1 < length s \<and>
                            (s ! (i + 1) = CHR ''/'' \<or> s ! (i + 1) = CHR ''*'')"
  defines "st' \<equiv> snd (scan_iteration s st)"
  assumes "i < length s"
  shows "(three \<longrightarrow>
            substr s i 3 = [s ! i, s ! (i + 1), s ! (i + 2)] \<and>
            fst (scan_iteration s st) \<and>
            tokens st' = tokens st @
              [\<lparr>token_value = substr s i 3, token_class = ''OPERATOR'',
                line_number = current_line st\<rparr>] \<and>
            current_char_index st' = i + 3 \<and> current_line st' = current_line st) \<and>
         (\<not> three \<and> two \<longrightarrow>
            substr s i 2 = [s ! i, s ! (i + 1)] \<and>
            fst (scan_iteration s st) \<and>
            tokens st' = tokens st @
              [\<lparr>token_value = substr s i 2, token_class = ''OPERATOR'',
                line_number = current_line st\<rparr>] \<and>
            current_char_index st' = i + 2 \<and> current_line st' = current_line st) \<and>
         (\<not> three \<and> \<not> two \<and> s ! i \<in> set single_char_operators \<and> \<not> opens_comment \<longrightarrow>
            fst (scan_iteration s st) \<and>
            tokens st' = tokens st @
              [\<lparr>token_value = [s ! i], token_class = ''OPERATOR'',
                line_number = current_line st\<rparr>] \<and>
            current_char_index st' = i + 1 \<and> current_line st' = current_line st) \<and>
         (\<forall>t. tokens st' = tokens st @ [t] \<and> token_class t = ''OPERATOR'' \<and>
               length (token_value t) = 2 \<longrightarrow>
               \<not> three \<and> two \<and> token_value t = substr s i 2 \<and> current_char_index st' = i + 2) \<and>
         (\<forall>t. tokens st' = tokens st @ [t] \<and> token_class t = ''OPERATOR'' \<and>
               length (token_value t) = 1 \<longrightarrow>
               \<not> three \<and> \<not> two \<and> s ! i \<in> set single_char_operators \<and>
               token_value t = [s ! i] \<and> current_char_index st' = i + 1)"
proof -
  have part1: "substr s i 3 = [s ! i, s ! (i + 1), s ! (i + 2)] \<and>
            fst (scan_iteration s st) \<and>
            tokens st' = tokens st @
              [\<lparr>token_value = substr s i 3, token_class = ''OPERATOR'',
                line_number = current_line st\<rparr>] \<and>
            current_char_index st' = i + 3 \<and> current_line st' = current_line st"
    if three
  proof -
    from that have a: "current_char_index st + 2 < length s"
        "substr s (current_char_index st) 3 \<in> set multi_char_operators"
      by (simp_all add: three_def i_def)
    from op3_dispatch [OF a] substr3 [OF a(1)] show ?thesis
      unfolding i_def st'_def by (simp add: mkToken_def addToken_def)
  qed
  have part2: "substr s i 2 = [s ! i, s ! (i + 1)] \<and>
            fst (scan_iteration s st) \<and>
            tokens st' = tokens st @
              [\<lparr>token_value = substr s i 2, token_class = ''OPERATOR'',
                line_number = current_line st\<rparr>] \<and>
            current_char_index st' = i + 2 \<and> current_line st' = current_line st"
    if "\<not> three" two
  proof -
    from that have a: "\<not> (current_char_index st + 2 < length s \<and>
              substr s (current_char_index st) 3 \<in> set multi_char_operators)"
        "current_char_index st + 1 < length s"
        "substr s (current_char_index st) 2 \<in> set multi_char_operators"
      by (simp_all add: three_def two_def i_def)
    from op2_dispatch [OF a] substr2 [OF a(2)] show ?thesis
      unfolding i_def st'_def by (simp add: mkToken_def addToken_def)
  qed
  have part3: "fst (scan_iteration s st) \<and>
            tokens st' = tokens st @
              [\<lparr>token_value = [s ! i], token_class = ''OPERATOR'',
                line_number = current_line st\<rparr>] \<and>
            current_char_index st' = i + 1 \<and> current_line st' = current_line st"
    if "\<not> three" "\<not> two" "s ! i \<in> set single_char_operators" "\<not> opens_comment"
  proof -
    from that have a: "\<not> (current_char_index st + 2 < length s \<and>
              substr s (current_char_index st) 3 \<in> set multi_char_operators)"
        "\<not> (current_char_index st + 1 < length s \<and>
              substr s (current_char_index st) 2 \<in> set multi_char_operators)"
        "s ! current_char_index st \<in> set single_char_operators"
        "\<not> (s ! current_char_index st = CHR ''/'' \<and> current_char_index st + 1 < length s \<and>
            (s ! (current_char_index st + 1) = CHR ''/'' \<or>
             s ! (current_char_index st + 1) = CHR ''*''))"
      by (simp_all add: three_def two_def opens_comment_def i_def)
    from op1_dispatch [OF a] show ?thesis
      unfolding i_def st'_def by (simp add: mkToken_def addToken_def)
  qed
  have part45: "\<not> three \<and> (length (token_value t) = 2 \<longrightarrow>
                  two \<and> token_value t = substr s i 2 \<and> current_char_index st' = i + 2)
              \<and> (length (token_value t) = 1 \<longrightarrow>
                  \<not> two \<and> s ! i \<in> set single_char_operators \<and>
                  token_value t = [s ! i] \<and> current_char_index st' = i + 1)"
    if t: "tokens st' = tokens st @ [t]" "token_class t = ''OPERATOR''"
      "length (token_value t) = 2 \<or> length (token_value t) = 1" for t
  proof (cases rule: scan_iteration_cases [of s st])
    case op3
    with t show ?thesis
      using substr3 [of i s] by (auto simp: st'_def i_def mkToken_def)
  next
    case op2
    with t show ?thesis
      using substr2 [of i s] by (auto simp: st'_def i_def mkToken_def three_def two_def)
  next
    case op1
    with t show ?thesis
      by (auto simp: st'_def i_def mkToken_def three_def two_def)
  next
    case number
    from scan_iteration_number_tokens [OF number(2)] t show ?thesis
      by (auto simp: st'_def)
  next
    case word
    have "(if snd (word_loop s (current_char_index st) []) \<in> set keywords_set
           then ''KEYWORD'' else ''IDENTIFIER'') \<noteq> ''OPERATOR''" by simp
    with word(3) t(1,2) show ?thesis by (auto simp: st'_def mkToken_def)
  qed (use t(1,2) in \<open>auto simp: st'_def mkToken_def\<close>)
  from part1 part2 part3 part45 show ?thesis by blast
qed

theorem maximal_munch_witness:
  "tokens (snd (scan_iteration ''a<<=b'' (initial_state\<lparr>current_char_index := 1, current_line := 1\<rparr>)))
     = [\<lparr>token_value = ''<<='', token_class = ''OPERATOR'', line_number = 1\<rparr>] \<and>
   current_char_index
     (snd (scan_iteration ''a<<=b'' (initial_state\<lparr>current_char_index := 1, current_line := 1\<rparr>)))
     = 4 \<and>
   tokens (snd (scan_iteration ''a<<b'' (initial_state\<lparr>current_char_index := 1, current_line := 1\<rparr>)))
     = [\<lparr>token_value = ''<<'', token_class = ''OPERATOR'', line_number = 1\<rparr>] \<and>
   current_char_index
     (snd (scan_iteration ''a<<b'' (initial_state\<lparr>current_char_index := 1, current_line := 1\<rparr>)))
     = 3 \<and>
   tokens (snd (scan_iteration ''a<b'' (initial_state\<lparr>current_char_index := 1, current_line := 1\<rparr>)))
     = [\<lparr>token_value = ''<'', token_class = ''OPERATOR'', line_number = 1\<rparr>] \<and>
   current_char_index
     (snd (scan_iteration ''a<b'' (initial_state\<lparr>current_char_index := 1, current_line := 1\<rparr>)))
     = 2"
proof -
  let ?st = "initial_state\<lparr>current_char_index := 1, current_line := 1\<rparr>"
  note ev = initial_state_def substr_def multi_char_operators_def single_char_operators_def
  have lt: "current_char_index ?st < length s" if "1 < length s" for s :: string
    using that by (simp add: initial_state_def)
  have h3: "current_char_index ?st + 2 < length ''a<<=b'' \<and>
            substr ''a<<=b'' (current_char_index ?st) 3 \<in> set multi_char_operators"
    by (simp add: ev)
  have h2: "\<not> (current_char_index ?st + 2 < length ''a<<b'' \<and>
               substr ''a<<b'' (current_char_index ?st) 3 \<in> set multi_char_operators) \<and>
            (current_char_index ?st + 1 < length ''a<<b'' \<and>
               substr ''a<<b'' (current_char_index ?st) 2 \<in> set multi_char_operators)"
    by (simp add: ev)
  have h1: "\<not> (current_char_index ?st + 2 < length ''a<b'' \<and>
               substr ''a<b'' (current_char_index ?st) 3 \<in> set multi_char_operators) \<and>
            \<not> (current_char_index ?st + 1 < length ''a<b'' \<and>
               substr ''a<b'' (current_char_index ?st) 2 \<in> set multi_char_operators) \<and>
            ''a<b'' ! current_char_index ?st \<in> set single_char_operators \<and>
            \<not> (''a<b'' ! current_char_index ?st = CHR ''/'' \<and>
               current_char_index ?st + 1 < length ''a<b'' \<and>
               (''a<b'' ! (current_char_index ?st + 1) = CHR ''/'' \<or>
                ''a<b'' ! (current_char_index ?st + 1) = CHR ''*''))"
    by (simp add: ev)
  have "1 < length ''a<<=b''" by simp
  from maximal_munch [OF lt [OF this], THEN conjunct1, THEN mp, OF h3]
  have "tokens (snd (scan_iteration ''a<<=b'' ?st))
     = [\<lparr>token_value = ''<<='', token_class = ''OPERATOR'', line_number = 1\<rparr>] \<and>
     current_char_index (snd (scan_iteration ''a<<=b'' ?st)) = 4"
    by (simp add: ev)
  moreover have "1 < length ''a<<b''" by simp
  from maximal_munch [OF lt [OF this], THEN conjunct2, THEN conjunct1, THEN mp, OF h2]
  have "tokens (snd (scan_iteration ''a<<b'' ?st))
     = [\<lparr>token_value = ''<<'', token_class = ''OPERATOR'', line_number = 1\<rparr>] \<and>
     current_char_index (snd (scan_iteration ''a<<b'' ?st)) = 3"
    by (simp add: ev)
  moreover have "1 < length ''a<b''" by simp
  from maximal_munch [OF lt [OF this], THEN conjunct2, THEN conjunct2, THEN conjunct1, THEN mp, OF h1]
  have "tokens (snd (scan_iteration ''a<b'' ?st))
     = [\<lparr>token_value = ''<'', token_class = ''OPERATOR'', line_number = 1\<rparr>] \<and>
     current_char_index (snd (scan_iteration ''a<b'' ?st)) = 2"
    by (simp add: ev)
  ultimately show ?thesis by simp
qed

subsection \<open>Invariants of the main loop\<close>

lemma scan_loop_invariant:
  assumes "P st"
    and "\<And>st. P st \<Longrightarrow> current_char_index st < length s \<Longrightarrow> P (snd (scan_iteration s st))"
  shows "P (scan_loop s st)"
  using assms
proof (induction s st rule: scan_loop.induct)
  case (1 s st)
  show ?case
  proof (cases "current_char_index st < length s")
    case False
    with 1 show ?thesis by (subst scan_loop.simps) simp
  next
    case True
    note step = "1.prems"(2) [OF "1.prems"(1) True]
    show ?thesis
    proof (cases "fst (scan_iteration s st)")
      case False
      with True step show ?thesis by (subst scan_loop.simps) (simp add: Let_def)
    next
      case c: True
      from "1.IH" [OF True refl c step "1.prems"(2)] True c show ?thesis
        by (subst scan_loop.simps) (simp add: Let_def)
    qed
  qed
qed

lemma scan_tokens_invariant:
  assumes "\<And>st. \<forall>t\<in>set (tokens st). Q t \<Longrightarrow> current_char_index st < length s \<Longrightarrow>
             \<forall>t\<in>set (tokens (snd (scan_iteration s st))). Q t"
  shows "\<forall>t\<in>set (tokens (scan s)). Q t"
proof (cases "s = []")
  case True
  then show ?thesis by (simp add: scan_def initial_state_def)
next
  case False
  have "\<forall>t\<in>set (tokens (scan_loop s (initial_state\<lparr>current_line := 1\<rparr>))). Q t"
    by (rule scan_loop_invariant [where P = "\<lambda>st. \<forall>t\<in>set (tokens st). Q t"])
       (simp_all add: initial_state_def assms)
  with False show ?thesis by (simp add: scan_def)
qed

subsection \<open>The word pow\<close>

lemma word_loop_takeWhile:
  "word_loop s i w =
     (i + length (takeWhile (\<lambda>c. isalnum c \<or> c = CHR ''_'') (drop i s)),
      w @ takeWhile (\<lambda>c. isalnum c \<or> c = CHR ''_'') (drop i s))"
proof (induction s i w rule: word_loop.induct)
  case (1 s i w)
  let ?P = "\<lambda>c. isalnum c \<or> c = CHR ''_''"
  show ?case
  proof (cases "i < length s \<and> ?P (s ! i)")
    case True
    then have d: "drop i s = s ! i # drop (i + 1) s" by (simp add: Cons_nth_drop_Suc)
    from True have "word_loop s i w = word_loop s (i + 1) (w @ [s ! i])"
      by (subst word_loop.simps) simp
    also have "\<dots> = (i + 1 + length (takeWhile ?P (drop (i + 1) s)),
                      (w @ [s ! i]) @ takeWhile ?P (drop (i + 1) s))"
      using 1 True by simp
    finally show ?thesis using True by (simp add: d)
  next
    case False
    then have "takeWhile ?P (drop i s) = []"
      by (cases "i < length s") (auto simp: Cons_nth_drop_Suc [symmetric])
    moreover from False have "word_loop s i w = (i, w)"
      by (subst word_loop.simps) auto
    ultimately show ?thesis by simp
  qed
qed

lemma word_pow:
  assumes "take 3 (snd (word_loop s i [])) = ''pow''"
  shows "i + 2 < length s \<and> substr s i 3 = ''pow''"
proof -
  let ?P = "\<lambda>c. isalnum c \<or> c = CHR ''_''"
  let ?w = "takeWhile ?P (drop i s)"
  from assms have tw: "take 3 ?w = ''pow''"
    by (simp add: word_loop_takeWhile)
  then have "length (take 3 ?w) = 3" by simp
  then have l: "3 \<le> length ?w" by simp
  define d where "d = dropWhile ?P (drop i s)"
  define w where "w = ?w"
  have dr: "drop i s = w @ d" by (simp add: w_def d_def)
  from l have lw: "3 \<le> length w" by (simp add: w_def)
  then have "3 \<le> length (drop i s)" unfolding dr by simp
  then have "i + 2 < length s" by simp
  moreover have "take 3 (drop i s) = take 3 w"
    unfolding dr using lw by simp
  ultimately show ?thesis using tw by (simp add: substr_def w_def)
qed

lemma no_word_pow_step:
  assumes "\<forall>t\<in>set (tokens st).
             (token_class t = ''IDENTIFIER'' \<or> token_class t = ''KEYWORD'') \<longrightarrow>
             take 3 (token_value t) \<noteq> ''pow''"
  shows "\<forall>t\<in>set (tokens (snd (scan_iteration s st))).
           (token_class t = ''IDENTIFIER'' \<or> token_class t = ''KEYWORD'') \<longrightarrow>
           take 3 (token_value t) \<noteq> ''pow''"
proof (cases rule: scan_iteration_cases [of s st])
  case word
  have "take 3 (snd (word_loop s (current_char_index st) [])) \<noteq> ''pow''"
  proof
    assume "take 3 (snd (word_loop s (current_char_index st) [])) = ''pow''"
    from word_pow [OF this] have "current_char_index st + 2 < length s"
      "substr s (current_char_index st) 3 \<in> set multi_char_operators"
      by (simp_all add: multi_char_operators_def)
    with word(1) show False by simp
  qed
  with word(3) assms show ?thesis by (simp add: mkToken_def)
next
  case number
  from scan_iteration_number_tokens [OF number(2)] assms show ?thesis by auto
qed (use assms in \<open>simp_all add: mkToken_def\<close>)

lemma pow_dispatch:
  assumes "current_char_index st + 2 < length s" "substr s (current_char_index st) 3 = ''pow''"
  shows "scan_iteration s st =
           (True, addToken ''pow'' ''OPERATOR'' (current_line st)
                    (st\<lparr>current_char_index := current_char_index st + 3\<rparr>))"
  using op3_dispatch [of st s] assms by (simp add: multi_char_operators_def)

text \<open>The tokens collected are never taken back.\<close>

lemma scan_iteration_tokens_grow:
  "\<exists>ts. tokens (snd (scan_iteration s st)) = tokens st @ ts"
proof (cases rule: scan_iteration_cases [of s st])
  case number
  from scan_iteration_number_tokens [OF number(2)] show ?thesis by blast
qed simp_all

lemma scan_loop_tokens_grow: "\<exists>ts. tokens (scan_loop s st) = tokens st @ ts"
proof (rule scan_loop_invariant [where P = "\<lambda>st'. \<exists>ts. tokens st' = tokens st @ ts"])
  show "\<exists>ts. tokens st = tokens st @ ts" by simp
next
  fix st' :: scan_state
  assume "\<exists>ts. tokens st' = tokens st @ ts"
  then obtain ts where a: "tokens st' = tokens st @ ts" ..
  from scan_iteration_tokens_grow [of s st'] obtain us
    where "tokens (snd (scan_iteration s st')) = tokens st' @ us" ..
  with a have "tokens (snd (scan_iteration s st')) = tokens st @ (ts @ us)" by simp
  then show "\<exists>ts. tokens (snd (scan_iteration s st')) = tokens st @ ts" ..
qed

lemma scan_pow_first:
  "\<exists>ts. tokens (scan (''pow'' @ r)) =
      \<lparr>token_value = ''pow'', token_class = ''OPERATOR'', line_number = 1\<rparr> # ts"
proof -
  let ?s = "''pow'' @ r"
  let ?st = "initial_state\<lparr>current_line := 1\<rparr>"
  let ?st1 = "addToken ''pow'' ''OPERATOR'' 1 (?st\<lparr>current_char_index := 3\<rparr>)"
  have i: "current_char_index ?st = 0" "current_line ?st = 1" "tokens ?st = []"
    by (simp_all add: initial_state_def)
  have "scan_iteration ?s ?st =
      (True, addToken ''pow'' ''OPERATOR'' (current_line ?st)
               (?st\<lparr>current_char_index := current_char_index ?st + 3\<rparr>))"
    by (rule pow_dispatch) (simp_all add: i substr_def)
  then have it: "scan_iteration ?s ?st = (True, ?st1)" by (simp add: i)
  have lt: "current_char_index ?st < length ?s" by (simp add: i)
  have "scan ?s = scan_loop ?s ?st" by (simp add: scan_def)
  also have "\<dots> = (let r = scan_iteration ?s ?st
                      in if fst r then scan_loop ?s (snd r) else snd r)"
    by (subst scan_loop.simps) (simp only: lt if_True)
  also have "\<dots> = scan_loop ?s ?st1"
    unfolding it by (simp only: Let_def fst_conv snd_conv if_True)
  finally have "scan ?s = scan_loop ?s ?st1" .
  moreover from scan_loop_tokens_grow [of ?s ?st1] obtain ts
    where "tokens (scan_loop ?s ?st1) = tokens ?st1 @ ts" ..
  moreover have "tokens ?st1 =
      [\<lparr>token_value = ''pow'', token_class = ''OPERATOR'', line_number = 1\<rparr>]"
    by (simp add: initial_state_def mkToken_def)
  ultimately have "tokens (scan ?s) =
      \<lparr>token_value = ''pow'', token_class = ''OPERATOR'', line_number = 1\<rparr> # ts" by simp
  then show ?thesis ..
qed

text \<open>
  Claim C10, as stated, fails on the code in its last part: the remainder of a longer
  word that begins with pow is scanned on its own and need not be one token. The source
  powpower gives the operator pow twice and then the identifier er; the source pow2x
  gives the operator pow, the numeric constant 2 and the identifier x.
\<close>

theorem pow_remainder_not_one_token:
  "tokens (scan ''powpower'') =
     [\<lparr>token_value = ''pow'', token_class = ''OPERATOR'', line_number = 1\<rparr>,
      \<lparr>token_value = ''pow'', token_class = ''OPERATOR'', line_number = 1\<rparr>,
      \<lparr>token_value = ''er'', token_class = ''IDENTIFIER'', line_number = 1\<rparr>] \<and>
   tokens (scan ''pow2x'') =
     [\<lparr>token_value = ''pow'', token_class = ''OPERATOR'', line_number = 1\<rparr>,
      \<lparr>token_value = ''2'', token_class = ''NUMERIC CONSTANT'', line_number = 1\<rparr>,
      \<lparr>token_value = ''x'', token_class = ''IDENTIFIER'', line_number = 1\<rparr>]"
proof -
  have "tokens (scan ''powpower'') =
     [\<lparr>token_value = ''pow'', token_class = ''OPERATOR'', line_number = 1\<rparr>,
      \<lparr>token_value = ''pow'', token_class = ''OPERATOR'', line_number = 1\<rparr>,
      \<lparr>token_value = ''er'', token_class = ''IDENTIFIER'', line_number = 1\<rparr>]"
    by code_simp
  moreover have "tokens (scan ''pow2x'') =
     [\<lparr>token_value = ''pow'', token_class = ''OPERATOR'', line_number = 1\<rparr>,
      \<lparr>token_value = ''2'', token_class = ''NUMERIC CONSTANT'', line_number = 1\<rparr>,
      \<lparr>token_value = ''x'', token_class = ''IDENTIFIER'', line_number = 1\<rparr>]"
    by code_simp
  ultimately show ?thesis by (rule conjI)
qed

text \<open>
  Claim C10, amended. At a position where the main loop arrives and the next three
  characters are pow, the iteration appends exactly one token, OPERATOR pow on the
  current line, and advances the index by three, so that what follows is scanned on its
  own from its first character. So no scan ever emits an IDENTIFIER token whose lexeme is
  pow, nor any IDENTIFIER or KEYWORD token whose lexeme begins with pow: a longer word
  that begins with pow is never one token. A source text that begins with pow gives
  OPERATOR pow as its first token, whatever follows. The source pow gives the operator
  alone, and the source power gives the operator followed by the identifier er.
\<close>

theorem pow_is_operator:
  "(current_char_index st + 2 < length s \<and> substr s (current_char_index st) 3 = ''pow'' \<longrightarrow>
      fst (scan_iteration s st) \<and>
      tokens (snd (scan_iteration s st)) = tokens st @
        [\<lparr>token_value = ''pow'', token_class = ''OPERATOR'', line_number = current_line st\<rparr>] \<and>
      current_char_index (snd (scan_iteration s st)) = current_char_index st + 3 \<and>
      current_line (snd (scan_iteration s st)) = current_line st) \<and>
   (\<forall>t\<in>set (tokens (scan src)). \<not> (token_class t = ''IDENTIFIER'' \<and> token_value t = ''pow'')) \<and>
   (\<forall>t\<in>set (tokens (scan src)).
      (token_class t = ''IDENTIFIER'' \<or> token_class t = ''KEYWORD'') \<longrightarrow>
      take 3 (token_value t) \<noteq> ''pow'') \<and>
   (\<exists>ts. tokens (scan (''pow'' @ r)) =
      \<lparr>token_value = ''pow'', token_class = ''OPERATOR'', line_number = 1\<rparr> # ts) \<and>
   tokens (scan ''pow'') =
     [\<lparr>token_value = ''pow'', token_class = ''OPERATOR'', line_number = 1\<rparr>] \<and>
   tokens (scan ''power'') =
     [\<lparr>token_value = ''pow'', token_class = ''OPERATOR'', line_number = 1\<rparr>,
      \<lparr>token_value = ''er'', token_class = ''IDENTIFIER'', line_number = 1\<rparr>]"
proof -
  have step: "fst (scan_iteration s st) \<and>
      tokens (snd (scan_iteration s st)) = tokens st @
        [\<lparr>token_value = ''pow'', token_class = ''OPERATOR'', line_number = current_line st\<rparr>] \<and>
      current_char_index (snd (scan_iteration s st)) = current_char_index st + 3 \<and>
      current_line (snd (scan_iteration s st)) = current_line st"
    if "current_char_index st + 2 < length s \<and> substr s (current_char_index st) 3 = ''pow''"
    using pow_dispatch [of st s] that by (simp add: mkToken_def addToken_def)
  have words: "\<forall>t\<in>set (tokens (scan src)).
      (token_class t = ''IDENTIFIER'' \<or> token_class t = ''KEYWORD'') \<longrightarrow>
      take 3 (token_value t) \<noteq> ''pow''"
    by (rule scan_tokens_invariant) (rule no_word_pow_step)
  then have alone: "\<forall>t\<in>set (tokens (scan src)).
      \<not> (token_class t = ''IDENTIFIER'' \<and> token_value t = ''pow'')"
    by auto
  have one: "tokens (scan ''pow'') =
     [\<lparr>token_value = ''pow'', token_class = ''OPERATOR'', line_number = 1\<rparr>]"
    by code_simp
  have two: "tokens (scan ''power'') =
     [\<lparr>token_value = ''pow'', token_class = ''OPERATOR'', line_number = 1\<rparr>,
      \<lparr>token_value = ''er'', token_class = ''IDENTIFIER'', line_number = 1\<rparr>]"
    by code_simp
  from step words alone scan_pow_first [of r] one two show ?thesis by blast
qed

theorem pow_is_operator_witness:
  "tokens (snd (scan_iteration ''a power''
      (initial_state\<lparr>current_char_index := 2, current_line := 1\<rparr>))) =
     [\<lparr>token_value = ''pow'', token_class = ''OPERATOR'', line_number = 1\<rparr>] \<and>
   current_char_index (snd (scan_iteration ''a power''
      (initial_state\<lparr>current_char_index := 2, current_line := 1\<rparr>))) = 5 \<and>
   \<lparr>token_value = ''pow'', token_class = ''IDENTIFIER'', line_number = 1\<rparr>
     \<notin> set (tokens (scan ''a power'')) \<and>
   \<lparr>token_value = ''power'', token_class = ''IDENTIFIER'', line_number = 1\<rparr>
     \<notin> set (tokens (scan ''a power''))"
proof -
  let ?st = "initial_state\<lparr>current_char_index := 2, current_line := 1\<rparr>"
  note inst = pow_is_operator [of ?st "''a power''" "''a power''" "[]"]
  have h: "current_char_index ?st + 2 < length ''a power'' \<and>
           substr ''a power'' (current_char_index ?st) 3 = ''pow''"
    by (simp add: initial_state_def substr_def)
  from inst [THEN conjunct1, THEN mp, OF h]
  have a: "tokens (snd (scan_iteration ''a power'' ?st)) =
     [\<lparr>token_value = ''pow'', token_class = ''OPERATOR'', line_number = 1\<rparr>] \<and>
     current_char_index (snd (scan_iteration ''a power'' ?st)) = 5"
    by (simp add: initial_state_def)
  from inst [THEN conjunct2, THEN conjunct2, THEN conjunct1]
  have w: "\<forall>t\<in>set (tokens (scan ''a power'')).
      (token_class t = ''IDENTIFIER'' \<or> token_class t = ''KEYWORD'') \<longrightarrow>
      take 3 (token_value t) \<noteq> ''pow''" .
  have b: "\<lparr>token_value = ''pow'', token_class = ''IDENTIFIER'', line_number = 1\<rparr>
     \<notin> set (tokens (scan ''a power''))"
    using w by force
  have c: "\<lparr>token_value = ''power'', token_class = ''IDENTIFIER'', line_number = 1\<rparr>
     \<notin> set (tokens (scan ''a power''))"
    using w by force
  from a b c show ?thesis by simp
qed

subsection \<open>A radix point at the start of a token\<close>

lemma point_class:
  "CHR ''.'' \<noteq> CHR 0x0A" "\<not> isspace CHR ''.''" "CHR ''.'' \<notin> set ''+-<>=&|*/%^!p''"
  "CHR ''.'' \<notin> set single_char_operators" "\<not> isalpha CHR ''.''" "\<not> isdigit CHR ''.''"
  by (simp_all add: isspace_def isalpha_def isdigit_def single_char_operators_def)

lemma point_dispatch:
  assumes "current_char_index st < length s" "s ! current_char_index st = CHR ''.''"
  shows "scan_iteration s st =
           (True, (addToken ''.'' ''SPECIAL CHARACTER'' (current_line st) st)
                    \<lparr>current_char_index := current_char_index st + 1\<rparr>)"
proof (cases rule: scan_iteration_cases [of s st])
  case op3
  then show ?thesis using assms point_class(3) multi_op_first by (auto simp: substr3)
next
  case op2
  then show ?thesis using assms point_class(3) multi_op_first by (auto simp: substr2)
next
  case special
  with assms show ?thesis by simp
qed (use assms point_class dot_special in simp_all)

text \<open>
  Claim C5, on the code. The radix point is a special character, and special characters
  are tested before numeric constants: whenever the main loop arrives at a radix point,
  whatever follows it, the iteration emits the one-character token SPECIAL CHARACTER
  for it and advances by one. The condition of check 6 for a point followed by a digit
  is never reached with a point.
\<close>

theorem leading_point_is_special:
  assumes "current_char_index st < length s" "s ! current_char_index st = CHR ''.''"
  shows "scan_iteration s st =
           (True, (addToken ''.'' ''SPECIAL CHARACTER'' (current_line st) st)
                    \<lparr>current_char_index := current_char_index st + 1\<rparr>)"
  using assms by (rule point_dispatch)

theorem leading_point_is_special_witness:
  "scan_iteration ''.5'' (initial_state\<lparr>current_line := 1\<rparr>) =
     (True, (addToken ''.'' ''SPECIAL CHARACTER'' 1 (initial_state\<lparr>current_line := 1\<rparr>))
              \<lparr>current_char_index := 1\<rparr>) \<and>
   tokens (scan ''.5'') =
     [mkToken ''.'' ''SPECIAL CHARACTER'' 1, mkToken ''5'' ''NUMERIC CONSTANT'' 1]"
proof -
  have "tokens (scan ''.5'') =
     [mkToken ''.'' ''SPECIAL CHARACTER'' 1, mkToken ''5'' ''NUMERIC CONSTANT'' 1]"
    by code_simp
  then show ?thesis
    using leading_point_is_special [of "initial_state\<lparr>current_line := 1\<rparr>" "''.5''"]
    by (simp add: initial_state_def)
qed

subsection \<open>The side path for a character literal\<close>

lemma no_char_literal_step:
  assumes "\<forall>t\<in>set (tokens st). token_class t \<noteq> ''CHAR_LITERAL''"
  shows "\<forall>t\<in>set (tokens (snd (scan_iteration s st))). token_class t \<noteq> ''CHAR_LITERAL''"
proof (cases rule: scan_iteration_cases [of s st])
  case number
  from scan_iteration_number_tokens [OF number(2)] assms show ?thesis by auto
qed (use assms in \<open>simp_all add: mkToken_def\<close>)

text \<open>
  Claim C9, on the code. The side path that emits CHAR_LITERAL sits inside the branch for
  special characters and asks for the current character to be a quote, which is not a
  special character. No scan of any source emits a CHAR_LITERAL token; a quote reaches
  check 7 and ends the scan as an unexpected character.
\<close>

theorem char_literal_never_emitted:
  "\<forall>t\<in>set (tokens (scan s)). token_class t \<noteq> ''CHAR_LITERAL''"
  by (rule scan_tokens_invariant) (rule no_char_literal_step)

theorem char_literal_never_emitted_witness:
  "tokens (scan [CHR ''c'', CHR ''='', CHR 0x27, CHR ''a'', CHR 0x27, CHR '';'']) =
     [mkToken ''c'' ''IDENTIFIER'' 1, mkToken ''='' ''OPERATOR'' 1] \<and>
   unexpected_char_error (scan [CHR ''c'', CHR ''='', CHR 0x27, CHR ''a'', CHR 0x27, CHR '';'']) \<and>
   unexpected_char (scan [CHR ''c'', CHR ''='', CHR 0x27, CHR ''a'', CHR 0x27, CHR '';''])
     = CHR 0x27 \<and>
   token_class (hd (tokens (scan [CHR ''c'', CHR ''='', CHR 0x27, CHR ''a'', CHR 0x27, CHR '';''])))
     \<noteq> ''CHAR_LITERAL''"
proof -
  let ?src = "[CHR ''c'', CHR ''='', CHR 0x27, CHR ''a'', CHR 0x27, CHR '';'']"
  have toks: "tokens (scan ?src) = [mkToken ''c'' ''IDENTIFIER'' 1, mkToken ''='' ''OPERATOR'' 1]"
    by code_simp
  have err: "unexpected_char_error (scan ?src)" by code_simp
  have chr: "unexpected_char (scan ?src) = CHR 0x27" by code_simp
  have mem: "hd (tokens (scan ?src)) \<in> set (tokens (scan ?src))"
    unfolding toks by simp
  have "token_class (hd (tokens (scan ?src))) \<noteq> ''CHAR_LITERAL''"
    using char_literal_never_emitted [of ?src] mem by (rule bspec)
  with toks err chr show ?thesis by (intro conjI)
qed

section \<open>Lexical errors\<close>

subsection \<open>The line count is the line of the index\<close>

lemma newlines_take_Suc:
  "i < length s \<Longrightarrow>
   newlines (take (Suc i) s) = newlines (take i s) + (if s ! i = CHR 0x0A then 1 else 0)"
  by (simp add: newlines_def take_Suc_conv_app_nth)

lemma newlines_append: "newlines (xs @ ys) = newlines xs + newlines ys"
  by (simp add: newlines_def)

lemma newlines_take_add: "newlines (take (i + n) s) = newlines (take i s) + newlines (substr s i n)"
  by (simp add: take_add newlines_append substr_def)

lemma comment_loop_line: "newlines (take (comment_loop s i) s) = newlines (take i s)"
proof (induction s i rule: comment_loop.induct)
  case (1 s i)
  show ?case
  proof (cases "i < length s \<and> s ! i \<noteq> CHR 0x0A")
    case True
    with 1 have "newlines (take (comment_loop s (i + 1)) s) = newlines (take (i + 1) s)" by simp
    with True show ?thesis by (subst comment_loop.simps) (simp add: newlines_take_Suc)
  next
    case False
    then show ?thesis by (subst comment_loop.simps) auto
  qed
qed

lemma directive_loop_line: "newlines (take (fst (directive_loop s i d)) s) = newlines (take i s)"
proof (induction s i d rule: directive_loop.induct)
  case (1 s i d)
  show ?case
  proof (cases "i < length s \<and> s ! i \<noteq> CHR 0x0A")
    case True
    with 1 have "newlines (take (fst (directive_loop s (i + 1) (d @ [s ! i]))) s)
                 = newlines (take (i + 1) s)" by simp
    with True show ?thesis by (subst directive_loop.simps) (simp add: newlines_take_Suc)
  next
    case False
    then show ?thesis by (subst directive_loop.simps) auto
  qed
qed

lemma alnum_not_newline: "isalnum c \<or> c = CHR ''_'' \<Longrightarrow> c \<noteq> CHR 0x0A"
  by (auto simp: isalnum_def isalpha_def isdigit_def)

lemma word_loop_line: "newlines (take (fst (word_loop s i w)) s) = newlines (take i s)"
proof (induction s i w rule: word_loop.induct)
  case (1 s i w)
  show ?case
  proof (cases "i < length s \<and> (isalnum (s ! i) \<or> s ! i = CHR ''_'')")
    case True
    with 1 have "newlines (take (fst (word_loop s (i + 1) (w @ [s ! i]))) s)
                 = newlines (take (i + 1) s)" by simp
    moreover from True have "s ! i \<noteq> CHR 0x0A" using alnum_not_newline by blast
    ultimately show ?thesis using True by (subst word_loop.simps) (simp add: newlines_take_Suc)
  next
    case False
    then show ?thesis by (subst word_loop.simps) auto
  qed
qed

lemma digits_loop_line: "newlines (take (fst (digits_loop s i n)) s) = newlines (take i s)"
proof (induction s i n rule: digits_loop.induct)
  case (1 s i n)
  show ?case
  proof (cases "i < length s \<and> isdigit (s ! i)")
    case True
    with 1 have "newlines (take (fst (digits_loop s (i + 1) (n @ [s ! i]))) s)
                 = newlines (take (i + 1) s)" by simp
    moreover from True have "s ! i \<noteq> CHR 0x0A" by (auto simp: isdigit_def)
    ultimately show ?thesis using True by (subst digits_loop.simps) (simp add: newlines_take_Suc)
  next
    case False
    then show ?thesis by (subst digits_loop.simps) auto
  qed
qed

lemma number_loop_line:
  "newlines (take (fst (number_loop s ln i number h toks)) s) = newlines (take i s)"
proof (induction s ln i number h toks rule: number_loop.induct)
  case (1 s ln i number h toks)
  let ?r = "digits_loop s (i + 1) (number @ [s ! i])"
  consider (dot) "i < length s" "s ! i = CHR ''.''"
    | (digit) "i < length s" "isdigit (s ! i)" "s ! i \<noteq> CHR ''.''"
    | (stop) "\<not> (i < length s \<and> (isdigit (s ! i) \<or> s ! i = CHR ''.''))"
    by blast
  then show ?case
  proof cases
    case dot
    with 1(1) [of ?r] have "newlines (take (fst (number_loop s ln (fst ?r) [] True
         (toks @ [mkToken (snd ?r) ''NUMERIC CONSTANT'' ln]))) s) = newlines (take (fst ?r) s)"
      by simp
    also have "\<dots> = newlines (take (i + 1) s)" by (rule digits_loop_line)
    also have "\<dots> = newlines (take i s)" using dot by (simp add: newlines_take_Suc)
    finally show ?thesis using dot by (subst number_loop.simps) (simp add: Let_def)
  next
    case digit
    with 1(2) have "newlines (take (fst (number_loop s ln (i + 1) (number @ [s ! i]) h toks)) s)
                    = newlines (take (i + 1) s)" by simp
    moreover from digit have "s ! i \<noteq> CHR 0x0A" by (auto simp: isdigit_def)
    ultimately show ?thesis using digit by (subst number_loop.simps) (simp add: newlines_take_Suc)
  next
    case stop
    then show ?thesis by (subst number_loop.simps) auto
  qed
qed

lemma block_comment_loop_line:
  "snd (block_comment_loop s i ln) + int (newlines (take i s))
   = ln + int (newlines (take (fst (block_comment_loop s i ln)) s))"
proof (induction s i ln rule: block_comment_loop.induct)
  case (1 s i ln)
  let ?c = "i + 1 < length s \<and> \<not> (s ! i = CHR ''*'' \<and> s ! (i + 1) = CHR ''/'')"
  let ?ln = "if s ! i = CHR 0x0A then ln + 1 else ln"
  show ?case
  proof (cases ?c)
    case True
    with 1 have "snd (block_comment_loop s (i + 1) ?ln) + int (newlines (take (i + 1) s))
       = ?ln + int (newlines (take (fst (block_comment_loop s (i + 1) ?ln)) s))"
      by simp
    with True show ?thesis
      by (subst (1 2) block_comment_loop.simps) (simp add: newlines_take_Suc split: if_splits)
  next
    case False
    then show ?thesis by (subst (1 2) block_comment_loop.simps) auto
  qed
qed

lemma block_comment_loop_exit:
  "fst (block_comment_loop s i ln) + 1 < length s \<Longrightarrow>
   s ! fst (block_comment_loop s i ln) = CHR ''*'' \<and>
   s ! (fst (block_comment_loop s i ln) + 1) = CHR ''/''"
proof (induction s i ln rule: block_comment_loop.induct)
  case (1 s i ln)
  let ?c = "i + 1 < length s \<and> \<not> (s ! i = CHR ''*'' \<and> s ! (i + 1) = CHR ''/'')"
  let ?ln = "if s ! i = CHR 0x0A then ln + 1 else ln"
  show ?case
  proof (cases ?c)
    case True
    then have u: "block_comment_loop s i ln = block_comment_loop s (i + 1) ?ln"
      by (subst block_comment_loop.simps) simp
    from "1.IH" [OF True] "1.prems" show ?thesis unfolding u by simp
  next
    case False
    then have u: "block_comment_loop s i ln = (i, ln)"
      by (subst block_comment_loop.simps) auto
    from False "1.prems" show ?thesis unfolding u by auto
  qed
qed

lemma multi_op_no_newline: "x \<in> set multi_char_operators \<Longrightarrow> newlines x = 0"
  by (auto simp: multi_char_operators_def newlines_def)

lemma newlines_take_2:
  assumes "i + 1 < length s" "s ! i \<noteq> CHR 0x0A" "s ! (i + 1) \<noteq> CHR 0x0A"
  shows "newlines (take (i + 2) s) = newlines (take i s)"
proof -
  have "newlines (take (Suc (Suc i)) s) = newlines (take (Suc i) s)"
    using assms by (simp add: newlines_take_Suc)
  also have "\<dots> = newlines (take i s)" using assms by (simp add: newlines_take_Suc)
  finally show ?thesis by simp
qed

lemma scan_iteration_line:
  assumes "current_char_index st < length s"
    and "current_line st = line_of s (current_char_index st)"
  shows "current_line (snd (scan_iteration s st))
         = line_of s (current_char_index (snd (scan_iteration s st)))"
proof (cases rule: scan_iteration_cases [of s st])
  case newline
  with assms show ?thesis by (simp add: line_of_def newlines_take_Suc)
next
  case space
  with assms show ?thesis by (simp add: line_of_def newlines_take_Suc)
next
  case line_comment
  with assms show ?thesis by (simp add: line_of_def comment_loop_line addToken_def)
next
  case unterminated
  let ?i = "current_char_index st"
  let ?r = "block_comment_loop s (?i + 2) (current_line st)"
  have "newlines (take (?i + 2) s) = newlines (take ?i s)"
    using unterminated by (intro newlines_take_2) simp_all
  with block_comment_loop_line [of s "?i + 2" "current_line st"] assms(2)
  have "snd ?r = 1 + int (newlines (take (fst ?r) s))" by (simp add: line_of_def)
  with unterminated show ?thesis by (simp add: line_of_def)
next
  case block_comment
  let ?i = "current_char_index st"
  let ?r = "block_comment_loop s (?i + 2) (current_line st)"
  have "newlines (take (?i + 2) s) = newlines (take ?i s)"
    using block_comment by (intro newlines_take_2) simp_all
  with block_comment_loop_line [of s "?i + 2" "current_line st"] assms(2)
  have "snd ?r = 1 + int (newlines (take (fst ?r) s))" by (simp add: line_of_def)
  moreover have "newlines (take (fst ?r + 2) s) = newlines (take (fst ?r) s)"
    using block_comment(4) block_comment_loop_exit [OF block_comment(4)]
    by (intro newlines_take_2) simp_all
  ultimately show ?thesis using block_comment by (simp add: line_of_def addToken_def)
next
  case directive
  with assms show ?thesis by (simp add: line_of_def directive_loop_line addToken_def)
next
  case op3
  with assms show ?thesis
    by (simp add: line_of_def newlines_take_add multi_op_no_newline addToken_def)
next
  case op2
  have "newlines (take (current_char_index st + 2) s)
        = newlines (take (current_char_index st) s) + newlines (substr s (current_char_index st) 2)"
    by (rule newlines_take_add)
  with op2 assms show ?thesis
    by (simp add: line_of_def multi_op_no_newline addToken_def)
next
  case op1
  then have "s ! current_char_index st \<noteq> CHR 0x0A" by (auto simp: single_char_operators_def)
  with op1 assms show ?thesis by (simp add: line_of_def newlines_take_Suc addToken_def)
next
  case special
  then have "s ! current_char_index st \<noteq> CHR 0x0A" by (auto simp: special_chars_def)
  with special assms show ?thesis by (simp add: line_of_def newlines_take_Suc addToken_def)
next
  case word
  with assms show ?thesis by (simp add: line_of_def word_loop_line addToken_def)
next
  case number
  with assms
    number_loop_line [of s "current_line st" "current_char_index st" "[]" False "tokens st"]
  show ?thesis by (auto simp: line_of_def split: prod.splits)
next
  case unexpected
  with assms show ?thesis by simp
qed

subsection \<open>An iteration reads nothing beyond the index it reaches\<close>

text \<open>
  Each inner loop gives the same result on the source text cut at any index from the one
  it stops at on.
\<close>

lemma comment_loop_take:
  assumes "comment_loop s i \<le> c" "c \<le> length s"
  shows "comment_loop (take c s) i = comment_loop s i"
  using assms
proof (induction s i rule: comment_loop.induct)
  case (1 s i)
  show ?case
  proof (cases "i < length s \<and> s ! i \<noteq> CHR 0x0A")
    case True
    then have u: "comment_loop s i = comment_loop s (i + 1)"
      by (subst comment_loop.simps) simp
    have "i + 1 \<le> comment_loop s (i + 1)" by (rule comment_loop_ge)
    with u "1.prems" have ic: "i < c" by simp
    from "1.IH" [OF True] u "1.prems"
    have "comment_loop (take c s) (i + 1) = comment_loop s (i + 1)" by simp
    moreover have "comment_loop (take c s) i = comment_loop (take c s) (i + 1)"
      using True ic "1.prems" by (subst comment_loop.simps) simp
    ultimately show ?thesis using u by simp
  next
    case False
    then have u: "comment_loop s i = i" by (subst comment_loop.simps) auto
    have "comment_loop (take c s) i = i"
      using False "1.prems" by (subst comment_loop.simps) auto
    with u show ?thesis by simp
  qed
qed

lemma directive_loop_take:
  assumes "fst (directive_loop s i d) \<le> c" "c \<le> length s"
  shows "directive_loop (take c s) i d = directive_loop s i d"
  using assms
proof (induction s i d rule: directive_loop.induct)
  case (1 s i d)
  show ?case
  proof (cases "i < length s \<and> s ! i \<noteq> CHR 0x0A")
    case True
    then have u: "directive_loop s i d = directive_loop s (i + 1) (d @ [s ! i])"
      by (subst directive_loop.simps) simp
    have "i + 1 \<le> fst (directive_loop s (i + 1) (d @ [s ! i]))" by (rule directive_loop_ge)
    with u "1.prems" have ic: "i < c" by simp
    from "1.IH" [OF True] u "1.prems"
    have "directive_loop (take c s) (i + 1) (d @ [s ! i]) = directive_loop s (i + 1) (d @ [s ! i])"
      by simp
    moreover have "directive_loop (take c s) i d = directive_loop (take c s) (i + 1) (d @ [s ! i])"
      using True ic "1.prems" by (subst directive_loop.simps) simp
    ultimately show ?thesis using u by simp
  next
    case False
    then have u: "directive_loop s i d = (i, d)" by (subst directive_loop.simps) auto
    have "directive_loop (take c s) i d = (i, d)"
      using False "1.prems" by (subst directive_loop.simps) auto
    with u show ?thesis by simp
  qed
qed

lemma word_loop_take:
  assumes "fst (word_loop s i w) \<le> c" "c \<le> length s"
  shows "word_loop (take c s) i w = word_loop s i w"
  using assms
proof (induction s i w rule: word_loop.induct)
  case (1 s i w)
  show ?case
  proof (cases "i < length s \<and> (isalnum (s ! i) \<or> s ! i = CHR ''_'')")
    case True
    then have u: "word_loop s i w = word_loop s (i + 1) (w @ [s ! i])"
      by (subst word_loop.simps) simp
    have "i + 1 \<le> fst (word_loop s (i + 1) (w @ [s ! i]))" by (rule word_loop_ge)
    with u "1.prems" have ic: "i < c" by simp
    from "1.IH" [OF True] u "1.prems"
    have "word_loop (take c s) (i + 1) (w @ [s ! i]) = word_loop s (i + 1) (w @ [s ! i])"
      by simp
    moreover have "word_loop (take c s) i w = word_loop (take c s) (i + 1) (w @ [s ! i])"
      using True ic "1.prems" by (subst word_loop.simps) simp
    ultimately show ?thesis using u by simp
  next
    case False
    then have u: "word_loop s i w = (i, w)" by (subst word_loop.simps) auto
    have "word_loop (take c s) i w = (i, w)"
      using False "1.prems" by (subst word_loop.simps) auto
    with u show ?thesis by simp
  qed
qed

lemma digits_loop_take:
  assumes "fst (digits_loop s i n) \<le> c" "c \<le> length s"
  shows "digits_loop (take c s) i n = digits_loop s i n"
  using assms
proof (induction s i n rule: digits_loop.induct)
  case (1 s i n)
  show ?case
  proof (cases "i < length s \<and> isdigit (s ! i)")
    case True
    then have u: "digits_loop s i n = digits_loop s (i + 1) (n @ [s ! i])"
      by (subst digits_loop.simps) simp
    have "i + 1 \<le> fst (digits_loop s (i + 1) (n @ [s ! i]))" by (rule digits_loop_ge)
    with u "1.prems" have ic: "i < c" by simp
    from "1.IH" [OF True] u "1.prems"
    have "digits_loop (take c s) (i + 1) (n @ [s ! i]) = digits_loop s (i + 1) (n @ [s ! i])"
      by simp
    moreover have "digits_loop (take c s) i n = digits_loop (take c s) (i + 1) (n @ [s ! i])"
      using True ic "1.prems" by (subst digits_loop.simps) simp
    ultimately show ?thesis using u by simp
  next
    case False
    then have u: "digits_loop s i n = (i, n)" by (subst digits_loop.simps) auto
    have "digits_loop (take c s) i n = (i, n)"
      using False "1.prems" by (subst digits_loop.simps) auto
    with u show ?thesis by simp
  qed
qed

lemma number_loop_take:
  assumes "fst (number_loop s ln i number h toks) \<le> c" "c \<le> length s"
  shows "number_loop (take c s) ln i number h toks = number_loop s ln i number h toks"
  using assms
proof (induction s ln i number h toks rule: number_loop.induct)
  case (1 s ln i number h toks)
  let ?r = "digits_loop s (i + 1) (number @ [s ! i])"
  let ?toks = "toks @ [mkToken (snd ?r) ''NUMERIC CONSTANT'' ln]"
  consider (dot) "i < length s" "s ! i = CHR ''.''"
    | (digit) "i < length s" "isdigit (s ! i)" "s ! i \<noteq> CHR ''.''"
    | (stop) "\<not> (i < length s \<and> (isdigit (s ! i) \<or> s ! i = CHR ''.''))"
    by blast
  then show ?case
  proof cases
    case dot
    then have u: "number_loop s ln i number h toks = number_loop s ln (fst ?r) [] True ?toks"
      by (subst number_loop.simps) (simp add: Let_def)
    have ge: "fst ?r \<le> fst (number_loop s ln (fst ?r) [] True ?toks)" by (rule number_loop_ge)
    have "i + 1 \<le> fst ?r" by (rule digits_loop_ge)
    with ge u "1.prems" have ic: "i < c" and rc: "fst ?r \<le> c" by simp_all
    from rc "1.prems" have d: "digits_loop (take c s) (i + 1) (number @ [s ! i]) = ?r"
      by (intro digits_loop_take) simp_all
    from dot "1.IH"(1) [of ?r] u "1.prems"
    have "number_loop (take c s) ln (fst ?r) [] True ?toks
          = number_loop s ln (fst ?r) [] True ?toks" by simp
    moreover have "number_loop (take c s) ln i number h toks
          = number_loop (take c s) ln (fst ?r) [] True ?toks"
      using dot ic "1.prems" d by (subst number_loop.simps) (simp add: Let_def)
    ultimately show ?thesis using u by simp
  next
    case digit
    then have u: "number_loop s ln i number h toks
                  = number_loop s ln (i + 1) (number @ [s ! i]) h toks"
      by (subst number_loop.simps) simp
    have "i + 1 \<le> fst (number_loop s ln (i + 1) (number @ [s ! i]) h toks)"
      by (rule number_loop_ge)
    with u "1.prems" have ic: "i < c" by simp
    from digit "1.IH"(2) u "1.prems"
    have "number_loop (take c s) ln (i + 1) (number @ [s ! i]) h toks
          = number_loop s ln (i + 1) (number @ [s ! i]) h toks" by simp
    moreover have "number_loop (take c s) ln i number h toks
          = number_loop (take c s) ln (i + 1) (number @ [s ! i]) h toks"
      using digit ic "1.prems" by (subst number_loop.simps) simp
    ultimately show ?thesis using u by simp
  next
    case stop
    then have u: "number_loop s ln i number h toks = (i, number, h, toks)"
      by (subst number_loop.simps) auto
    have "number_loop (take c s) ln i number h toks = (i, number, h, toks)"
      using stop "1.prems" by (subst number_loop.simps) auto
    with u show ?thesis by simp
  qed
qed

lemma block_comment_loop_take:
  assumes "fst (block_comment_loop s i ln) + 2 \<le> c" "c \<le> length s"
  shows "block_comment_loop (take c s) i ln = block_comment_loop s i ln"
  using assms
proof (induction s i ln rule: block_comment_loop.induct)
  case (1 s i ln)
  let ?c = "i + 1 < length s \<and> \<not> (s ! i = CHR ''*'' \<and> s ! (i + 1) = CHR ''/'')"
  let ?ln = "if s ! i = CHR 0x0A then ln + 1 else ln"
  show ?case
  proof (cases ?c)
    case True
    then have u: "block_comment_loop s i ln = block_comment_loop s (i + 1) ?ln"
      by (subst block_comment_loop.simps) simp
    have "i + 1 \<le> fst (block_comment_loop s (i + 1) ?ln)" by (rule block_comment_loop_ge)
    with u "1.prems" have ic: "i + 1 < c" by simp
    from "1.IH" [OF True] u "1.prems"
    have "block_comment_loop (take c s) (i + 1) ?ln = block_comment_loop s (i + 1) ?ln"
      by simp
    moreover have "block_comment_loop (take c s) i ln = block_comment_loop (take c s) (i + 1) ?ln"
      using True ic "1.prems" by (subst block_comment_loop.simps) simp
    ultimately show ?thesis using u by simp
  next
    case False
    then have u: "block_comment_loop s i ln = (i, ln)"
      by (subst block_comment_loop.simps) auto
    have "block_comment_loop (take c s) i ln = (i, ln)"
      using False "1.prems" u by (subst block_comment_loop.simps) auto
    with u show ?thesis by simp
  qed
qed

lemma substr_take: "i + n \<le> c \<Longrightarrow> substr (take c s) i n = substr s i n"
  by (simp add: substr_def drop_take)

text \<open>
  So does a whole iteration that continues: cut the source text at any index from the
  one the iteration reaches on, and the iteration is the same.
\<close>

lemma scan_iteration_take:
  assumes lt: "current_char_index st < length s"
    and cont: "fst (scan_iteration s st)"
    and le: "current_char_index (snd (scan_iteration s st)) \<le> c"
    and cl: "c \<le> length s"
  shows "scan_iteration (take c s) st = scan_iteration s st"
proof -
  define i where "i = current_char_index st"
  define ln where "ln = current_line st"
  define s' where "s' = take c s"
  let ?C3 = "\<lambda>x. x ! i = CHR ''/'' \<and> i + 1 < length x \<and> x ! (i + 1) = CHR ''/''"
  let ?C4 = "\<lambda>x. x ! i = CHR ''/'' \<and> i + 1 < length x \<and> x ! (i + 1) = CHR ''*''"
  let ?O3 = "\<lambda>x. i + 2 < length x \<and> substr x i 3 \<in> set multi_char_operators"
  let ?O2 = "\<lambda>x. i + 1 < length x \<and> substr x i 2 \<in> set multi_char_operators"
  let ?r = "\<lambda>x. block_comment_loop x (i + 2) ln"
  note defs = scan_iteration_def Let_def i_def [symmetric] ln_def [symmetric]
  have ic: "i < c" using scan_iteration_progress [OF lt cont] le by (simp add: i_def)
  have len: "length s' = c" using cl by (simp add: s'_def)
  have nth: "s' ! j = s ! j" if "j < c" for j using that by (simp add: s'_def)
  have ci: "s' ! i = s ! i" using ic by (rule nth)
  have le': "current_char_index (snd (scan_iteration s st)) \<le> c" by (rule le)
  have t3: "\<not> ?C3 s'" if "\<not> ?C3 s" using that cl nth [of "i + 1"] ci by (auto simp: len)
  have t4: "\<not> ?C4 s'" if "\<not> ?C4 s" using that cl nth [of "i + 1"] ci by (auto simp: len)
  have to3: "\<not> ?O3 s'" if "\<not> ?O3 s"
    using that cl substr_take [of i 3 c s] by (auto simp: len s'_def)
  have to2: "\<not> ?O2 s'" if "\<not> ?O2 s"
    using that cl substr_take [of i 2 c s] by (auto simp: len s'_def)
  consider (c1) "s ! i = CHR 0x0A"
    | (c2) "s ! i \<noteq> CHR 0x0A" "isspace (s ! i)"
    | (c3) "s ! i \<noteq> CHR 0x0A" "\<not> isspace (s ! i)" "s ! i = CHR ''/''" "i + 1 < length s"
           "s ! (i + 1) = CHR ''/''"
    | (c4) "s ! i \<noteq> CHR 0x0A" "\<not> isspace (s ! i)" "s ! i = CHR ''/''" "i + 1 < length s"
           "s ! (i + 1) = CHR ''*''"
    | (c5) "s ! i \<noteq> CHR 0x0A" "\<not> isspace (s ! i)" "\<not> ?C3 s" "\<not> ?C4 s"
    by blast
  then have "scan_iteration s' st = scan_iteration s st"
  proof cases
    case c1
    have D: "scan_iteration x st = (True, st\<lparr>current_line := ln + 1, current_char_index := i + 1\<rparr>)"
      if "x ! i = CHR 0x0A" for x
      using that by (simp add: defs)
    from c1 ci show ?thesis by (simp add: D)
  next
    case c2
    have D: "scan_iteration x st = (True, st\<lparr>current_char_index := i + 1\<rparr>)"
      if "x ! i \<noteq> CHR 0x0A" "isspace (x ! i)" for x
      using that by (simp add: defs)
    from c2 ci show ?thesis by (simp add: D)
  next
    case c3
    have D: "scan_iteration x st =
         (True, addToken ''//'' ''Single-Line Comment'' ln (st\<lparr>current_char_index := comment_loop x i\<rparr>))"
      if "x ! i \<noteq> CHR 0x0A" "\<not> isspace (x ! i)" "x ! i = CHR ''/''" "i + 1 < length x"
         "x ! (i + 1) = CHR ''/''" for x
      using that by (simp add: defs addToken_def cong: conj_cong)
    note R = D [OF c3]
    from c3 have "comment_loop s i = comment_loop s (i + 1)"
      by (subst comment_loop.simps) simp
    moreover from c3 have "i + 1 < comment_loop s (i + 1)" by (intro comment_loop_gt) simp_all
    ultimately have "i + 2 \<le> comment_loop s i" by simp
    moreover from le' R have b: "comment_loop s i \<le> c" by (simp add: addToken_def)
    ultimately have "i + 1 < c" by simp
    with c3 ci nth [of "i + 1"] have "scan_iteration s' st =
         (True, addToken ''//'' ''Single-Line Comment'' ln (st\<lparr>current_char_index := comment_loop s' i\<rparr>))"
      by (intro D) (simp_all add: len)
    moreover have "comment_loop s' i = comment_loop s i"
      unfolding s'_def using b cl by (rule comment_loop_take)
    ultimately show ?thesis using R by simp
  next
    case c4
    have D: "scan_iteration x st =
         (True, addToken ''/* .. */'' ''Multi-Line Comment'' ln
                  (st\<lparr>current_char_index := fst (?r x) + 2, current_line := snd (?r x)\<rparr>))"
      if "x ! i \<noteq> CHR 0x0A" "\<not> isspace (x ! i)" "x ! i = CHR ''/''" "i + 1 < length x"
         "x ! (i + 1) = CHR ''*''" "fst (?r x) + 1 < length x" for x
      using that by (simp add: defs addToken_def cong: conj_cong)
    have U: "\<not> fst (scan_iteration s st)" if "length s \<le> fst (?r s) + 1"
      using that c4 by (simp add: defs cong: conj_cong)
    with cont have closed: "fst (?r s) + 1 < length s" by force
    note R = D [OF c4 closed]
    from le' R have b: "fst (?r s) + 2 \<le> c" by (simp add: addToken_def)
    have "i + 2 \<le> fst (?r s)" by (rule block_comment_loop_ge)
    with b have "i + 1 < c" by simp
    moreover have e: "?r s' = ?r s"
      unfolding s'_def using b cl by (rule block_comment_loop_take)
    ultimately have "scan_iteration s' st =
         (True, addToken ''/* .. */'' ''Multi-Line Comment'' ln
                  (st\<lparr>current_char_index := fst (?r s') + 2, current_line := snd (?r s')\<rparr>))"
      using c4 ci nth [of "i + 1"] b by (intro D) (simp_all add: len)
    with e R show ?thesis by simp
  next
    case c5
    note pre = c5(1,2)
    note pre' = pre [folded ci] t3 [OF c5(3)] t4 [OF c5(4)]
    consider (d1) "s ! i = CHR ''#''"
      | (d2) "s ! i \<noteq> CHR ''#''" "?O3 s"
      | (d3) "s ! i \<noteq> CHR ''#''" "\<not> ?O3 s" "?O2 s"
      | (d4) "s ! i \<noteq> CHR ''#''" "\<not> ?O3 s" "\<not> ?O2 s" "s ! i \<in> set single_char_operators"
      | (d5) "s ! i \<noteq> CHR ''#''" "\<not> ?O3 s" "\<not> ?O2 s" "s ! i \<notin> set single_char_operators"
             "s ! i \<in> set special_chars"
      | (d6) "s ! i \<noteq> CHR ''#''" "\<not> ?O3 s" "\<not> ?O2 s" "s ! i \<notin> set single_char_operators"
             "s ! i \<notin> set special_chars" "isalpha (s ! i) \<or> s ! i = CHR ''_''"
      | (d7) "s ! i \<noteq> CHR ''#''" "\<not> ?O3 s" "\<not> ?O2 s" "s ! i \<notin> set single_char_operators"
             "s ! i \<notin> set special_chars" "\<not> (isalpha (s ! i) \<or> s ! i = CHR ''_'')"
             "isdigit (s ! i)"
      | (d8) "s ! i \<noteq> CHR ''#''" "\<not> ?O3 s" "\<not> ?O2 s" "s ! i \<notin> set single_char_operators"
             "s ! i \<notin> set special_chars" "\<not> (isalpha (s ! i) \<or> s ! i = CHR ''_'')"
             "\<not> isdigit (s ! i)"
      by blast
    then show ?thesis
    proof cases
      case d1
      have D: "scan_iteration x st =
         (True, addToken (snd (directive_loop x i [])) ''PREPROCESSOR DIRECTIVE'' ln
                  (st\<lparr>current_char_index := fst (directive_loop x i [])\<rparr>))"
        if "x ! i \<noteq> CHR 0x0A" "\<not> isspace (x ! i)" "\<not> ?C3 x" "\<not> ?C4 x" "x ! i = CHR ''#''" for x
        using that by (simp add: defs addToken_def cong: conj_cong)
      note R = D [OF c5 d1]
      from le' R have b: "fst (directive_loop s i []) \<le> c" by (simp add: addToken_def)
      have L: "scan_iteration s' st =
         (True, addToken (snd (directive_loop s' i [])) ''PREPROCESSOR DIRECTIVE'' ln
                  (st\<lparr>current_char_index := fst (directive_loop s' i [])\<rparr>))"
        using pre' d1 ci by (intro D) (auto simp: len)
      have "directive_loop s' i [] = directive_loop s i []"
        unfolding s'_def using b cl by (rule directive_loop_take)
      with L R show ?thesis by simp
    next
      case d2
      have D: "scan_iteration x st =
         (True, addToken (substr x i 3) ''OPERATOR'' ln (st\<lparr>current_char_index := i + 3\<rparr>))"
        if "x ! i \<noteq> CHR 0x0A" "\<not> isspace (x ! i)" "\<not> ?C3 x" "\<not> ?C4 x" "x ! i \<noteq> CHR ''#''"
           "?O3 x" for x
        using that by (simp add: defs addToken_def cong: conj_cong)
      note R = D [OF c5 d2]
      from le' R have b: "i + 3 \<le> c" by (simp add: addToken_def)
      then have e: "substr s' i 3 = substr s i 3" unfolding s'_def by (rule substr_take)
      have L: "scan_iteration s' st =
         (True, addToken (substr s' i 3) ''OPERATOR'' ln (st\<lparr>current_char_index := i + 3\<rparr>))"
        using pre' d2 ci e b by (intro D) (auto simp: len)
      with e R show ?thesis by simp
    next
      case d3
      have D: "scan_iteration x st =
         (True, addToken (substr x i 2) ''OPERATOR'' ln (st\<lparr>current_char_index := i + 2\<rparr>))"
        if "x ! i \<noteq> CHR 0x0A" "\<not> isspace (x ! i)" "\<not> ?C3 x" "\<not> ?C4 x" "x ! i \<noteq> CHR ''#''"
           "\<not> ?O3 x" "?O2 x" for x
        using that by (simp add: defs addToken_def cong: conj_cong)
      note R = D [OF c5 d3]
      from le' R have b: "i + 2 \<le> c" by (simp add: addToken_def)
      then have e: "substr s' i 2 = substr s i 2" unfolding s'_def by (rule substr_take)
      have L: "scan_iteration s' st =
         (True, addToken (substr s' i 2) ''OPERATOR'' ln (st\<lparr>current_char_index := i + 2\<rparr>))"
        using pre' d3(1,3) to3 [OF d3(2)] ci e b by (intro D) (auto simp: len)
      with e R show ?thesis by simp
    next
      case d4
      have D: "scan_iteration x st =
         (True, addToken [x ! i] ''OPERATOR'' ln (st\<lparr>current_char_index := i + 1\<rparr>))"
        if "x ! i \<noteq> CHR 0x0A" "\<not> isspace (x ! i)" "\<not> ?C3 x" "\<not> ?C4 x" "x ! i \<noteq> CHR ''#''"
           "\<not> ?O3 x" "\<not> ?O2 x" "x ! i \<in> set single_char_operators" for x
        using that by (simp add: defs addToken_def cong: conj_cong)
      note R = D [OF c5 d4]
      have L: "scan_iteration s' st =
         (True, addToken [s' ! i] ''OPERATOR'' ln (st\<lparr>current_char_index := i + 1\<rparr>))"
        using pre' d4(1,4) to3 [OF d4(2)] to2 [OF d4(3)] ci by (intro D) (auto simp: len)
      with ci R show ?thesis by simp
    next
      case d5
      have D: "scan_iteration x st =
         (True, (addToken [x ! i] ''SPECIAL CHARACTER'' ln st)\<lparr>current_char_index := i + 1\<rparr>)"
        if "x ! i \<noteq> CHR 0x0A" "\<not> isspace (x ! i)" "\<not> ?C3 x" "\<not> ?C4 x" "x ! i \<noteq> CHR ''#''"
           "\<not> ?O3 x" "\<not> ?O2 x" "x ! i \<notin> set single_char_operators"
           "x ! i \<in> set special_chars" for x
        using that special_not_quote [of "x ! i"]
        by (simp add: defs addToken_def cong: conj_cong)
      note R = D [OF c5 d5]
      have L: "scan_iteration s' st =
         (True, (addToken [s' ! i] ''SPECIAL CHARACTER'' ln st)\<lparr>current_char_index := i + 1\<rparr>)"
        using pre' d5(1,4,5) to3 [OF d5(2)] to2 [OF d5(3)] ci by (intro D) (auto simp: len)
      with ci R show ?thesis by simp
    next
      case d6
      have D: "scan_iteration x st =
         (True, addToken (snd (word_loop x i []))
                  (if snd (word_loop x i []) \<in> set keywords_set then ''KEYWORD'' else ''IDENTIFIER'')
                  ln (st\<lparr>current_char_index := fst (word_loop x i [])\<rparr>))"
        if "x ! i \<noteq> CHR 0x0A" "\<not> isspace (x ! i)" "\<not> ?C3 x" "\<not> ?C4 x" "x ! i \<noteq> CHR ''#''"
           "\<not> ?O3 x" "\<not> ?O2 x" "x ! i \<notin> set single_char_operators"
           "x ! i \<notin> set special_chars" "isalpha (x ! i) \<or> x ! i = CHR ''_''" for x
        using that by (simp add: defs addToken_def cong: conj_cong)
      note R = D [OF c5 d6]
      from le' R have b: "fst (word_loop s i []) \<le> c" by (simp add: addToken_def)
      have L: "scan_iteration s' st =
         (True, addToken (snd (word_loop s' i []))
                  (if snd (word_loop s' i []) \<in> set keywords_set then ''KEYWORD'' else ''IDENTIFIER'')
                  ln (st\<lparr>current_char_index := fst (word_loop s' i [])\<rparr>))"
        using pre' d6(1,4,5,6) to3 [OF d6(2)] to2 [OF d6(3)] ci by (intro D) (auto simp: len)
      have "word_loop s' i [] = word_loop s i []"
        unfolding s'_def using b cl by (rule word_loop_take)
      with L R show ?thesis by simp
    next
      case d7
      let ?n = "\<lambda>x. number_loop x ln i [] False (tokens st)"
      have D: "scan_iteration x st =
         (True, st\<lparr>current_char_index := fst (?n x),
                    tokens := (if \<not> fst (snd (snd (?n x)))
                               then snd (snd (snd (?n x)))
                                    @ [mkToken (fst (snd (?n x))) ''NUMERIC CONSTANT'' ln]
                               else snd (snd (snd (?n x))))\<rparr>)"
        if "x ! i \<noteq> CHR 0x0A" "\<not> isspace (x ! i)" "\<not> ?C3 x" "\<not> ?C4 x" "x ! i \<noteq> CHR ''#''"
           "\<not> ?O3 x" "\<not> ?O2 x" "x ! i \<notin> set single_char_operators"
           "x ! i \<notin> set special_chars" "\<not> (isalpha (x ! i) \<or> x ! i = CHR ''_'')"
           "isdigit (x ! i)" for x
        using that by (simp add: defs addToken_def split: prod.splits cong: conj_cong)
      note R = D [OF c5 d7]
      from le' R have b: "fst (?n s) \<le> c" by simp
      have L: "scan_iteration s' st =
         (True, st\<lparr>current_char_index := fst (?n s'),
                    tokens := (if \<not> fst (snd (snd (?n s')))
                               then snd (snd (snd (?n s')))
                                    @ [mkToken (fst (snd (?n s'))) ''NUMERIC CONSTANT'' ln]
                               else snd (snd (snd (?n s'))))\<rparr>)"
        using pre' d7(1,4,5,6,7) to3 [OF d7(2)] to2 [OF d7(3)] ci by (intro D) (auto simp: len)
      have "?n s' = ?n s"
        unfolding s'_def using b cl by (rule number_loop_take)
      with L R show ?thesis by simp
    next
      case d8
      from d8(5) have "s ! i \<noteq> CHR ''.''" using dot_special by auto
      with c5 d8 have "\<not> fst (scan_iteration s st)"
        by (simp add: defs cong: conj_cong)
      with cont show ?thesis by simp
    qed
  qed
  then show ?thesis by (simp add: s'_def)
qed

subsection \<open>Where the main loop stops\<close>

lemma scan_loop_run:
  assumes "P st"
    and "\<And>st. P st \<Longrightarrow> current_char_index st < length s \<Longrightarrow> fst (scan_iteration s st) \<Longrightarrow>
           P (snd (scan_iteration s st))"
    and "\<And>st. P st \<Longrightarrow> current_char_index st < length s \<Longrightarrow> \<not> fst (scan_iteration s st) \<Longrightarrow>
           R (snd (scan_iteration s st))"
    and "\<And>st. P st \<Longrightarrow> \<not> current_char_index st < length s \<Longrightarrow> R st"
  shows "R (scan_loop s st)"
  using assms
proof (induction s st rule: scan_loop.induct)
  case (1 s st)
  show ?case
  proof (cases "current_char_index st < length s")
    case False
    with "1.prems"(1,4) show ?thesis by (subst scan_loop.simps) simp
  next
    case True
    show ?thesis
    proof (cases "fst (scan_iteration s st)")
      case False
      with True "1.prems"(1,3) show ?thesis by (subst scan_loop.simps) (simp add: Let_def)
    next
      case c: True
      note step = "1.prems"(2) [OF "1.prems"(1) True c]
      from "1.IH" [OF True refl c step "1.prems"(2,3,4)] True c show ?thesis
        by (subst scan_loop.simps) (simp add: Let_def)
    qed
  qed
qed

lemma scan_iteration_continue_flags:
  assumes "fst (scan_iteration s st)"
  shows "unexpected_char_error (snd (scan_iteration s st)) = unexpected_char_error st \<and>
         unterminated_comment_error (snd (scan_iteration s st)) = unterminated_comment_error st"
  using assms
  by (cases rule: scan_iteration_cases [of s st]) (auto simp: addToken_def split: prod.splits)

lemma scan_iteration_break:
  assumes "\<not> fst (scan_iteration s st)"
  shows "tokens (snd (scan_iteration s st)) = tokens st \<and>
    (unexpected_char_error (snd (scan_iteration s st)) \<and>
       unterminated_comment_error (snd (scan_iteration s st)) = unterminated_comment_error st \<and>
       unexpected_char (snd (scan_iteration s st)) = s ! current_char_index st \<and>
       current_char_index (snd (scan_iteration s st)) = current_char_index st \<and>
       current_line (snd (scan_iteration s st)) = current_line st
     \<or>
     unterminated_comment_error (snd (scan_iteration s st)) \<and>
       unexpected_char_error (snd (scan_iteration s st)) = unexpected_char_error st \<and>
       current_char_index st + 1 < length s \<and>
       s ! current_char_index st = CHR ''/'' \<and> s ! (current_char_index st + 1) = CHR ''*'' \<and>
       current_char_index st + 2 \<le> current_char_index (snd (scan_iteration s st)) \<and>
       length s \<le> current_char_index (snd (scan_iteration s st)) + 1)"
proof (cases rule: scan_iteration_cases [of s st])
  case unterminated
  with block_comment_loop_ge [of "current_char_index st + 2" s "current_line st"]
  show ?thesis by simp
next
  case unexpected
  then show ?thesis by simp
next
  case number
  with assms show ?thesis by (auto split: prod.splits)
qed (use assms in simp_all)

text \<open>
  The state in which \<open>scan\<close> leaves the main loop. With an unexpected character: the
  index is that of the character, the line count is its line, and the tokens are those
  of the loop run on the source text before the character, which ends without an error.
  With an unterminated comment: the index is at the last character or behind it, and the
  tokens are those of the loop run on the source text before the comment.
\<close>

lemma scan_loop_stop:
  fixes s :: string
  defines "st \<equiv> scan_loop s loop_start"
  shows "\<not> (unexpected_char_error st \<and> unterminated_comment_error st)"
    and "unexpected_char_error st \<Longrightarrow>
           current_char_index st < length s \<and>
           unexpected_char st = s ! current_char_index st \<and>
           current_line st = line_of s (current_char_index st) \<and>
           tokens (scan_loop (take (current_char_index st) s) loop_start) = tokens st \<and>
           no_error (scan_loop (take (current_char_index st) s) loop_start)"
    and "unterminated_comment_error st \<Longrightarrow>
           length s \<le> current_char_index st + 1 \<and>
           (\<exists>c. c + 1 < length s \<and> s ! c = CHR ''/'' \<and> s ! (c + 1) = CHR ''*'' \<and>
                tokens (scan_loop (take c s) loop_start) = tokens st \<and>
                no_error (scan_loop (take c s) loop_start))"
proof -
  let ?P = "\<lambda>st. no_error st \<and> current_line st = line_of s (current_char_index st) \<and>
      (\<forall>c. current_char_index st \<le> c \<and> c \<le> length s \<longrightarrow>
           scan_loop (take c s) loop_start = scan_loop (take c s) st)"
  let ?R = "\<lambda>st. \<not> (unexpected_char_error st \<and> unterminated_comment_error st) \<and>
      (unexpected_char_error st \<longrightarrow>
           current_char_index st < length s \<and>
           unexpected_char st = s ! current_char_index st \<and>
           current_line st = line_of s (current_char_index st) \<and>
           tokens (scan_loop (take (current_char_index st) s) loop_start) = tokens st \<and>
           no_error (scan_loop (take (current_char_index st) s) loop_start)) \<and>
      (unterminated_comment_error st \<longrightarrow>
           length s \<le> current_char_index st + 1 \<and>
           (\<exists>c. c + 1 < length s \<and> s ! c = CHR ''/'' \<and> s ! (c + 1) = CHR ''*'' \<and>
                tokens (scan_loop (take c s) loop_start) = tokens st \<and>
                no_error (scan_loop (take c s) loop_start)))"
  have "?R (scan_loop s loop_start)"
  proof (rule scan_loop_run [where P = ?P], goal_cases)
    case 1
    show ?case
      by (simp add: loop_start_def initial_state_def no_error_def line_of_def newlines_def)
  next
    case (2 st)
    let ?st' = "snd (scan_iteration s st)"
    from 2 have lt: "current_char_index st < length s" and cont: "fst (scan_iteration s st)"
      by simp_all
    have "no_error ?st'"
      using 2(1) scan_iteration_continue_flags [OF cont] by (simp add: no_error_def)
    moreover have "current_line ?st' = line_of s (current_char_index ?st')"
      using 2(1) lt by (intro scan_iteration_line) simp_all
    moreover have "scan_loop (take c s) loop_start = scan_loop (take c s) ?st'"
      if c: "current_char_index ?st' \<le> c" "c \<le> length s" for c
    proof -
      have less: "current_char_index st < current_char_index ?st'"
        using lt cont by (rule scan_iteration_progress)
      with c have "current_char_index st \<le> c" by simp
      with 2(1) c have "scan_loop (take c s) loop_start = scan_loop (take c s) st" by simp
      moreover have "scan_iteration (take c s) st = scan_iteration s st"
        using lt cont c by (rule scan_iteration_take)
      moreover from less c have "current_char_index st < length (take c s)" by simp
      ultimately show ?thesis using cont by (subst (asm) (2) scan_loop.simps) (simp add: Let_def)
    qed
    ultimately show ?case by simp
  next
    case (3 st)
    let ?st' = "snd (scan_iteration s st)"
    let ?c = "current_char_index st"
    from 3 have lt: "?c < length s" and brk: "\<not> fst (scan_iteration s st)" by simp_all
    from 3(1) lt have "scan_loop (take ?c s) loop_start = scan_loop (take ?c s) st" by simp
    also have "\<dots> = st" using lt by (subst scan_loop.simps) simp
    finally have run: "scan_loop (take ?c s) loop_start = st" .
    from 3(1) have ne: "no_error st" and line: "current_line st = line_of s ?c" by simp_all
    from scan_iteration_break [OF brk] ne line lt run show ?case
      by (auto simp: no_error_def)
  next
    case (4 st)
    then show ?case by (simp add: no_error_def)
  qed
  then show "\<not> (unexpected_char_error st \<and> unterminated_comment_error st)"
    and "unexpected_char_error st \<Longrightarrow>
           current_char_index st < length s \<and>
           unexpected_char st = s ! current_char_index st \<and>
           current_line st = line_of s (current_char_index st) \<and>
           tokens (scan_loop (take (current_char_index st) s) loop_start) = tokens st \<and>
           no_error (scan_loop (take (current_char_index st) s) loop_start)"
    and "unterminated_comment_error st \<Longrightarrow>
           length s \<le> current_char_index st + 1 \<and>
           (\<exists>c. c + 1 < length s \<and> s ! c = CHR ''/'' \<and> s ! (c + 1) = CHR ''*'' \<and>
                tokens (scan_loop (take c s) loop_start) = tokens st \<and>
                no_error (scan_loop (take c s) loop_start))"
    unfolding st_def by blast+
qed

lemma scan_loop_start:
  "tokens (scan x) = tokens (scan_loop x loop_start)"
  "no_error (scan x) = no_error (scan_loop x loop_start)"
  "x \<noteq> [] \<Longrightarrow> scan x = scan_loop x loop_start"
proof -
  have "scan_loop [] loop_start = loop_start" by (subst scan_loop.simps) simp
  then show "tokens (scan x) = tokens (scan_loop x loop_start)"
    "no_error (scan x) = no_error (scan_loop x loop_start)"
    by (cases "x = []"; simp add: scan_def loop_start_def initial_state_def no_error_def)+
  show "x \<noteq> [] \<Longrightarrow> scan x = scan_loop x loop_start"
    by (simp add: scan_def loop_start_def)
qed

subsection \<open>What \<open>main\<close> does with a lexical error\<close>

text \<open>
  Claim C4, as stated, fails on the code for the unterminated comment: its report is one
  fixed message, which names the end of the file and carries neither a line nor any other
  position of the comment. A comment that opens on line 1 and is never closed, and one
  that opens on line 4, are reported with the very same output.
\<close>

theorem unterminated_comment_report_has_no_position:
  "unterminated_comment_error (scan ''/* a'') \<and>
   unterminated_comment_error (scan [CHR 0x0A, CHR 0x0A, CHR 0x0A, CHR ''/'', CHR ''*'', CHR '' '', CHR ''a'']) \<and>
   line_of ''/* a'' 0 = 1 \<and>
   line_of [CHR 0x0A, CHR 0x0A, CHR 0x0A, CHR ''/'', CHR ''*'', CHR '' '', CHR ''a''] 3 = 4 \<and>
   printed (scanner_main ''/* a'' True) = [''ERROR: Unterminated multi-line comment at end of file!'', ''click enter to end the program''] \<and>
   printed (scanner_main [CHR 0x0A, CHR 0x0A, CHR 0x0A, CHR ''/'', CHR ''*'', CHR '' '', CHR ''a''] True) = [''ERROR: Unterminated multi-line comment at end of file!'', ''click enter to end the program'']"
proof -
  have a: "unterminated_comment_error (scan ''/* a'')" by code_simp
  have b: "unterminated_comment_error (scan [CHR 0x0A, CHR 0x0A, CHR 0x0A, CHR ''/'', CHR ''*'', CHR '' '', CHR ''a''])"
    by code_simp
  have c: "line_of ''/* a'' 0 = 1" "line_of [CHR 0x0A, CHR 0x0A, CHR 0x0A, CHR ''/'', CHR ''*'', CHR '' '', CHR ''a''] 3 = 4"
    by code_simp+
  have d: "printed (scanner_main ''/* a'' True) = [''ERROR: Unterminated multi-line comment at end of file!'', ''click enter to end the program'']"
    by code_simp
  have e: "printed (scanner_main [CHR 0x0A, CHR 0x0A, CHR 0x0A, CHR ''/'', CHR ''*'', CHR '' '', CHR ''a''] True) = [''ERROR: Unterminated multi-line comment at end of file!'', ''click enter to end the program'']"
    by code_simp
  from a b c d e show ?thesis by simp
qed

text \<open>
  Claim C4, amended. Let the scan of \<open>s\<close> end with an unexpected character or an
  unterminated comment. Then \<open>main\<close> returns 1 and writes no \<open>tokens.txt\<close>, and what it prints
  is the one error message and the prompt. The two errors exclude one another.

  With an unexpected character the scan stops with its index \<open>e\<close> at that character: the
  message shows the character and, in decimal, the line of \<open>e\<close> in the source text (one
  more than the number of newlines before \<open>e\<close>). The tokens collected are exactly the
  tokens of the source text cut at \<open>e\<close>, which scans without an error: no token comes from
  a position at or after \<open>e\<close>.

  With an unterminated comment the message is the fixed text that names the end of the
  file, and the scan has stopped there (its index is at the last character or behind
  it). The tokens collected are exactly the tokens of the source text cut at the position
  \<open>c\<close> where the comment opens, which scans without an error.
\<close>

theorem lexical_error_outcome:
  assumes "unexpected_char_error (scan s) \<or> unterminated_comment_error (scan s)"
  shows "exit_status (scanner_main s output_opens) = 1 \<and>
     tokens_txt (scanner_main s output_opens) = None \<and>
     complaints (scanner_main s output_opens) = [] \<and>
     \<not> (unexpected_char_error (scan s) \<and> unterminated_comment_error (scan s)) \<and>
     (unexpected_char_error (scan s) \<longrightarrow>
        current_char_index (scan s) < length s \<and>
        printed (scanner_main s output_opens) =
          [''ERROR : AN UNEXPECTED CHARACTER ''
             @ [CHR 0x27, s ! current_char_index (scan s), CHR 0x27]
             @ ''IS FOUND!! at line #''
             @ string_of_int (line_of s (current_char_index (scan s))),
           ''click enter to end the program''] \<and>
        tokens (scan s) = tokens (scan (take (current_char_index (scan s)) s)) \<and>
        no_error (scan (take (current_char_index (scan s)) s))) \<and>
     (unterminated_comment_error (scan s) \<longrightarrow>
        length s \<le> current_char_index (scan s) + 1 \<and>
        printed (scanner_main s output_opens) =
          [''ERROR: Unterminated multi-line comment at end of file!'',
           ''click enter to end the program''] \<and>
        (\<exists>c. c + 1 < length s \<and> s ! c = CHR ''/'' \<and> s ! (c + 1) = CHR ''*'' \<and>
             tokens (scan s) = tokens (scan (take c s)) \<and> no_error (scan (take c s))))"
proof -
  from assms have ne: "s \<noteq> []" by (auto simp: scan_def initial_state_def)
  then have sc: "scan s = scan_loop s loop_start" by (rule scan_loop_start(3))
  note stop = scan_loop_stop [of s, folded sc]
  have excl: "\<not> (unexpected_char_error (scan s) \<and> unterminated_comment_error (scan s))"
    by (rule stop(1))
  have out: "exit_status (scanner_main s output_opens) = 1 \<and>
     tokens_txt (scanner_main s output_opens) = None \<and>
     complaints (scanner_main s output_opens) = []"
    using assms ne by (auto simp: scanner_main_def Let_def)
  have unexp: "current_char_index (scan s) < length s \<and>
        printed (scanner_main s output_opens) =
          [''ERROR : AN UNEXPECTED CHARACTER ''
             @ [CHR 0x27, s ! current_char_index (scan s), CHR 0x27]
             @ ''IS FOUND!! at line #''
             @ string_of_int (line_of s (current_char_index (scan s))),
           ''click enter to end the program''] \<and>
        tokens (scan s) = tokens (scan (take (current_char_index (scan s)) s)) \<and>
        no_error (scan (take (current_char_index (scan s)) s))"
    if u: "unexpected_char_error (scan s)"
  proof -
    from u excl have nu: "\<not> unterminated_comment_error (scan s)" by simp
    note f = stop(2) [OF u]
    from u nu ne f have "printed (scanner_main s output_opens) =
          [''ERROR : AN UNEXPECTED CHARACTER ''
             @ [CHR 0x27, s ! current_char_index (scan s), CHR 0x27]
             @ ''IS FOUND!! at line #''
             @ string_of_int (line_of s (current_char_index (scan s))),
           ''click enter to end the program'']"
      by (simp add: scanner_main_def Let_def)
    with f show ?thesis by (simp add: scan_loop_start(1,2))
  qed
  have unterm: "length s \<le> current_char_index (scan s) + 1 \<and>
        printed (scanner_main s output_opens) =
          [''ERROR: Unterminated multi-line comment at end of file!'',
           ''click enter to end the program''] \<and>
        (\<exists>c. c + 1 < length s \<and> s ! c = CHR ''/'' \<and> s ! (c + 1) = CHR ''*'' \<and>
             tokens (scan s) = tokens (scan (take c s)) \<and> no_error (scan (take c s)))"
    if u: "unterminated_comment_error (scan s)"
  proof -
    note f = stop(3) [OF u]
    from u ne have "printed (scanner_main s output_opens) =
          [''ERROR: Unterminated multi-line comment at end of file!'',
           ''click enter to end the program'']"
      by (simp add: scanner_main_def Let_def)
    with f show ?thesis by (auto simp: scan_loop_start(1,2))
  qed
  from out excl unexp unterm show ?thesis by blast
qed

theorem lexical_error_outcome_witness:
  "unexpected_char_error (scan [CHR ''a'', CHR 0x0A, CHR 0x0A, CHR 0x0A, CHR 0x0A, CHR 0x0A, CHR 0x0A, CHR 0x0A, CHR 0x0A, CHR 0x0A, CHR 0x0A, CHR 0x0A, CHR ''$'']) \<and>
   exit_status (scanner_main [CHR ''a'', CHR 0x0A, CHR 0x0A, CHR 0x0A, CHR 0x0A, CHR 0x0A, CHR 0x0A, CHR 0x0A, CHR 0x0A, CHR 0x0A, CHR 0x0A, CHR 0x0A, CHR ''$''] True) = 1 \<and>
   tokens_txt (scanner_main [CHR ''a'', CHR 0x0A, CHR 0x0A, CHR 0x0A, CHR 0x0A, CHR 0x0A, CHR 0x0A, CHR 0x0A, CHR 0x0A, CHR 0x0A, CHR 0x0A, CHR 0x0A, CHR ''$''] True) = None \<and>
   current_char_index (scan [CHR ''a'', CHR 0x0A, CHR 0x0A, CHR 0x0A, CHR 0x0A, CHR 0x0A, CHR 0x0A, CHR 0x0A, CHR 0x0A, CHR 0x0A, CHR 0x0A, CHR 0x0A, CHR ''$'']) = 12 \<and>
   printed (scanner_main [CHR ''a'', CHR 0x0A, CHR 0x0A, CHR 0x0A, CHR 0x0A, CHR 0x0A, CHR 0x0A, CHR 0x0A, CHR 0x0A, CHR 0x0A, CHR 0x0A, CHR 0x0A, CHR ''$''] True) =
     [''ERROR : AN UNEXPECTED CHARACTER '' @ [CHR 0x27] @ ''$'' @ [CHR 0x27]
        @ ''IS FOUND!! at line #12'', ''click enter to end the program''] \<and>
   tokens (scan [CHR ''a'', CHR 0x0A, CHR 0x0A, CHR 0x0A, CHR 0x0A, CHR 0x0A, CHR 0x0A, CHR 0x0A, CHR 0x0A, CHR 0x0A, CHR 0x0A, CHR 0x0A, CHR ''$'']) =
     [\<lparr>token_value = ''a'', token_class = ''IDENTIFIER'', line_number = 1\<rparr>] \<and>
   unterminated_comment_error (scan ''x /* y'') \<and>
   exit_status (scanner_main ''x /* y'' True) = 1 \<and>
   tokens_txt (scanner_main ''x /* y'' True) = None \<and>
   printed (scanner_main ''x /* y'' True) = [''ERROR: Unterminated multi-line comment at end of file!'', ''click enter to end the program'']"
proof -
  let ?a = "[CHR ''a'', CHR 0x0A, CHR 0x0A, CHR 0x0A, CHR 0x0A, CHR 0x0A, CHR 0x0A, CHR 0x0A, CHR 0x0A, CHR 0x0A, CHR 0x0A, CHR 0x0A, CHR ''$'']"
  have ua: "unexpected_char_error (scan ?a)" by code_simp
  have ia: "current_char_index (scan ?a) = 12" by code_simp
  have ca: "?a ! 12 = CHR ''$''" by simp
  have la: "string_of_int (line_of ?a 12) = ''12''"
    by code_simp
  have ta: "tokens (scan (take 12 ?a)) =
     [\<lparr>token_value = ''a'', token_class = ''IDENTIFIER'', line_number = 1\<rparr>]"
    by code_simp
  have ub: "unterminated_comment_error (scan ''x /* y'')" by code_simp
  note A = lexical_error_outcome [of ?a True]
  note B = lexical_error_outcome [of "''x /* y''" True]
  from A ua
  have a1: "exit_status (scanner_main ?a True) = 1" "tokens_txt (scanner_main ?a True) = None"
    by blast+
  from A ua
  have "printed (scanner_main ?a True) =
          [''ERROR : AN UNEXPECTED CHARACTER ''
             @ [CHR 0x27, ?a ! current_char_index (scan ?a), CHR 0x27]
             @ ''IS FOUND!! at line #''
             @ string_of_int (line_of ?a (current_char_index (scan ?a))), ''click enter to end the program'']"
    by blast
  then have a2: "printed (scanner_main ?a True) =
     [''ERROR : AN UNEXPECTED CHARACTER '' @ [CHR 0x27] @ ''$'' @ [CHR 0x27]
        @ ''IS FOUND!! at line #12'', ''click enter to end the program'']"
    unfolding ia la ca by simp
  from A ua
  have "tokens (scan ?a) = tokens (scan (take (current_char_index (scan ?a)) ?a))"
    by blast
  then have a3: "tokens (scan ?a) =
     [\<lparr>token_value = ''a'', token_class = ''IDENTIFIER'', line_number = 1\<rparr>]"
    unfolding ia ta .
  from B ub
  have b1: "exit_status (scanner_main ''x /* y'' True) = 1"
    "tokens_txt (scanner_main ''x /* y'' True) = None"
    "printed (scanner_main ''x /* y'' True) = [''ERROR: Unterminated multi-line comment at end of file!'', ''click enter to end the program'']"
    by blast+
  from ua a1 ia a2 a3 ub b1 show ?thesis by simp
qed

section \<open>Properties of the loader\<close>

text \<open>
  The test of the loader, that one of the two searches fails or both find the same
  comma, holds exactly of the lines with fewer than two commas.
\<close>

lemma lacks_two_commas:
  "(find_char s c = None \<or> rfind_char s c = None \<or> find_char s c = rfind_char s c)
   \<longleftrightarrow> length (filter (\<lambda>x. x = c) s) < 2"
proof (cases "c \<in> set s")
  case False
  then have "filter (\<lambda>x. x = c) s = []" by (auto simp: filter_empty_conv)
  with False show ?thesis by (simp add: find_char_def)
next
  case True
  define a where "a = takeWhile (\<lambda>x. x \<noteq> c) s"
  define b where "b = tl (dropWhile (\<lambda>x. x \<noteq> c) s)"
  have dw: "dropWhile (\<lambda>x. x \<noteq> c) s = c # b"
  proof -
    from True have "dropWhile (\<lambda>x. x \<noteq> c) s \<noteq> []" by auto
    moreover from this have "hd (dropWhile (\<lambda>x. x \<noteq> c) s) = c"
      using hd_dropWhile [of "\<lambda>x. x \<noteq> c" s] by simp
    ultimately show ?thesis unfolding b_def by (cases "dropWhile (\<lambda>x. x \<noteq> c) s") auto
  qed
  have s: "s = a @ c # b"
    using takeWhile_dropWhile_id [of "\<lambda>x. x \<noteq> c" s] dw by (simp add: a_def)
  have a: "c \<notin> set a" unfolding a_def by (auto dest: set_takeWhileD)
  have fa: "filter (\<lambda>x. x = c) a = []" using a by (auto simp: filter_empty_conv)
  have f: "find_char s c = Some (length a)" using True by (simp add: find_char_def a_def)
  show ?thesis
  proof (cases "c \<in> set b")
    case False
    then have "\<And>x. x \<in> set (rev b) \<Longrightarrow> x \<noteq> c" by auto
    from takeWhile_append2 [of "rev b" "\<lambda>x. x \<noteq> c" "c # rev a", OF this]
    have "takeWhile (\<lambda>x. x \<noteq> c) (rev s) = rev b"
      unfolding s by simp
    then have "rfind_char s c = Some (length a)"
      using True by (simp add: rfind_char_def) (simp add: s)
    moreover have "filter (\<lambda>x. x = c) b = []" using False by (auto simp: filter_empty_conv)
    ultimately show ?thesis using f fa by (simp add: s)
  next
    case cb: True
    then have "c \<in> set (rev b)" by simp
    from takeWhile_append1 [of c "rev b" "\<lambda>x. x \<noteq> c" "c # rev a", OF this]
    have "takeWhile (\<lambda>x. x \<noteq> c) (rev s) = takeWhile (\<lambda>x. x \<noteq> c) (rev b)"
      unfolding s by simp
    moreover have "length (takeWhile (\<lambda>x. x \<noteq> c) (rev b)) < length b"
    proof -
      have "c \<in> set (rev b)" using cb by simp
      then have "dropWhile (\<lambda>x. x \<noteq> c) (rev b) \<noteq> []" by auto
      then have "length (dropWhile (\<lambda>x. x \<noteq> c) (rev b)) > 0" by simp
      moreover have "length (takeWhile (\<lambda>x. x \<noteq> c) (rev b)) + length (dropWhile (\<lambda>x. x \<noteq> c) (rev b))
            = length b"
        by (metis length_append length_rev takeWhile_dropWhile_id)
      ultimately show ?thesis by linarith
    qed
    ultimately have "rfind_char s c \<noteq> Some (length a)"
      using True by (simp add: rfind_char_def) (simp add: s)
    moreover have "rfind_char s c \<noteq> None" using True by (simp add: rfind_char_def)
    moreover have "filter (\<lambda>x. x = c) b \<noteq> []" using cb by (auto simp: filter_empty_conv)
    then have "length (filter (\<lambda>x. x = c) b) \<ge> 1" by (cases "filter (\<lambda>x. x = c) b") auto
    ultimately show ?thesis using f fa by (auto simp: s)
  qed
qed

text \<open>
  Claim C8, as stated, fails on the code: a line shorter than 5 characters is passed over
  by the first test of the loop, before any warning is written. Loading a file whose only
  line is abc writes nothing to the error channel.
\<close>

theorem short_line_no_warning:
  "length ''abc'' < 5 \<and>
   load_tokens_from_file ''tokens.txt'' (Some [''abc'']) =
     Inr \<lparr>loaded_tokens = [], cerr = [], cout = [''Token file loaded. 0 tokens read.'']\<rparr>"
  by (simp add: load_tokens_from_file_def string_of_nat.simps)

text \<open>
  Claim C8, amended. A line shorter than 5 characters is skipped without a warning; a
  line of at least 5 characters with fewer than two commas is skipped with the warning
  for a malformed token line on the error channel; in both cases the tokens loaded so
  far are kept and loading goes on with the remaining lines.
\<close>

theorem malformed_lines_skipped:
  "(length line < 5 \<longrightarrow>
      load_lines (line # rest) toks errs = load_lines rest toks errs) \<and>
   (5 \<le> length line \<and> length (filter (\<lambda>x. x = CHR '','') line) < 2 \<longrightarrow>
      load_lines (line # rest) toks errs =
        load_lines rest toks (errs @ [''Warning: Malformed token line, skipping: '' @ line]))"
  using lacks_two_commas [of line "CHR '',''"] by (simp add: Let_def)

theorem malformed_lines_skipped_witness:
  "load_lines [''abc'', ''<KEYWORD, int, 1>''] [] [] =
     Inr ([\<lparr>token_value = ''int'', token_class = ''KEYWORD'', line_number = 1\<rparr>], []) \<and>
   load_lines [''hello, world'', ''<KEYWORD, int, 1>''] [] [] =
     Inr ([\<lparr>token_value = ''int'', token_class = ''KEYWORD'', line_number = 1\<rparr>],
          [''Warning: Malformed token line, skipping: hello, world''])"
proof -
  have rest: "load_lines [''<KEYWORD, int, 1>''] [] errs =
      Inr ([\<lparr>token_value = ''int'', token_class = ''KEYWORD'', line_number = 1\<rparr>], errs)" for errs
    by (simp add: find_char_def rfind_char_def substr_checked_def size_sub_def stoi_def
        isdigit_def isspace_def decimal_def)
  from malformed_lines_skipped [of "''abc''" "[''<KEYWORD, int, 1>'']" "[]" "[]"]
       malformed_lines_skipped [of "''hello, world''" "[''<KEYWORD, int, 1>'']" "[]" "[]"]
  show ?thesis by (simp add: rest del: load_lines.simps)
qed

section \<open>Properties of the parser\<close>

lemmas parser_bodies =
  parse_variable_declaration_body_def declarators_loop_body_def parse_statement_body_def
  parse_block_statement_body_def block_loop_body_def parse_if_statement_body_def
  parse_return_statement_body_def parse_expression_statement_body_def
  parse_for_statement_body_def parse_assignment_body_def parse_equality_body_def
  equality_loop_body_def parse_relational_body_def relational_loop_body_def
  parse_additive_body_def additive_loop_body_def parse_multiplicative_body_def
  multiplicative_loop_body_def parse_primary_body_def

lemmas parser_prims =
  peek_def match_def advance_def is_at_end_def report_error_def lookahead_def eof_token_def
  skip_comments.simps push_back_def binary_node_def mkToken_def Let_def numeral_2_eq_2

lemmas parser_top =
  parse_def parse_program_def parse_top_level_declaration_def parse_function_or_prototype_def

text \<open>
  For evaluating a parse at a given token vector: the continuation of \<open>bind\<close> and the
  body of \<open>let\<close> are entered only once their argument is known.
\<close>

lemma bind_weak_cong: "r = r' \<Longrightarrow> bind r f = bind r' f"
  by simp

lemmas eval_congs = bind_weak_cong let_weak_cong

lemma bind_Inr_E:
  assumes "bind r f = Inr x"
  obtains a p where "r = Inr (a, p)" "f p a = Inr x"
  using assms by (auto simp: bind_def split: sum.splits)

subsection \<open>Expressions produce expression nodes\<close>

lemma expression_node_kind:
  "parse_production n k ts pos = Inr (node, p) \<Longrightarrow> expression_production k \<Longrightarrow>
   ntype node \<in> expression_kinds"
proof (induction n arbitrary: k ts pos node p)
  case 0
  then show ?case by simp
next
  case (Suc n)
  have plain: "ntype node \<in> expression_kinds"
    if "parse_production n k ts pos = Inr (node, p)"
       "k \<in> {Expression, Assignment, Equality, Relational, Additive, Multiplicative, Primary}"
    for k ts pos node p
    using Suc.IH [OF that(1)] that(2) by auto
  have loop: "ntype node \<in> expression_kinds"
    if "parse_production n k ts pos = Inr (node, p)" "ntype l \<in> expression_kinds"
       "k \<in> {Equality_loop l, Relational_loop l, Additive_loop l, Multiplicative_loop l}"
    for k l ts pos node p
    using Suc.IH [OF that(1)] that(2,3) by auto
  have bin: "ntype (binary_node op l r) \<in> expression_kinds" for op l r
    by (simp add: binary_node_def expression_kinds_def)
  have kinds: "''Constant'' \<in> expression_kinds" "''Identifier'' \<in> expression_kinds"
    "''AssignmentExpression'' \<in> expression_kinds"
    by (simp_all add: expression_kinds_def)
  show ?case
  proof (cases k)
    case Expression
    with Suc.prems plain [of Assignment] show ?thesis by simp
  next
    case Assignment
    with Suc.prems show ?thesis
      by (auto simp: parse_assignment_body_def Let_def kinds
             elim!: bind_Inr_E split: prod.splits if_splits dest: plain [of Equality])
  next
    case Equality
    with Suc.prems show ?thesis
      by (auto simp: parse_equality_body_def elim!: bind_Inr_E
            dest!: plain [of Relational] dest: loop [of "Equality_loop _" _ _ _ _ _])
  next
    case (Equality_loop l)
    with Suc.prems show ?thesis
      by (auto simp: equality_loop_body_def Let_def elim!: bind_Inr_E split: prod.splits if_splits
            dest: loop [of "Equality_loop _" _ _ _ _ _, OF _ bin])
  next
    case Relational
    with Suc.prems show ?thesis
      by (auto simp: parse_relational_body_def elim!: bind_Inr_E
            dest!: plain [of Additive] dest: loop [of "Relational_loop _" _ _ _ _ _])
  next
    case (Relational_loop l)
    with Suc.prems show ?thesis
      by (auto simp: relational_loop_body_def Let_def elim!: bind_Inr_E split: prod.splits if_splits
            dest: loop [of "Relational_loop _" _ _ _ _ _, OF _ bin])
  next
    case Additive
    with Suc.prems show ?thesis
      by (auto simp: parse_additive_body_def elim!: bind_Inr_E
            dest!: plain [of Multiplicative] dest: loop [of "Additive_loop _" _ _ _ _ _])
  next
    case (Additive_loop l)
    with Suc.prems show ?thesis
      by (auto simp: additive_loop_body_def Let_def elim!: bind_Inr_E split: prod.splits if_splits
            dest: loop [of "Additive_loop _" _ _ _ _ _, OF _ bin])
  next
    case Multiplicative
    with Suc.prems show ?thesis
      by (auto simp: parse_multiplicative_body_def elim!: bind_Inr_E
            dest!: plain [of Primary] dest: loop [of "Multiplicative_loop _" _ _ _ _ _])
  next
    case (Multiplicative_loop l)
    with Suc.prems show ?thesis
      by (auto simp: multiplicative_loop_body_def Let_def elim!: bind_Inr_E split: prod.splits if_splits
            dest: loop [of "Multiplicative_loop _" _ _ _ _ _, OF _ bin])
  next
    case Primary
    with Suc.prems show ?thesis
      by (auto simp: parse_primary_body_def Let_def kinds
             elim!: bind_Inr_E split: prod.splits if_splits dest: plain [of Expression])
  qed (use Suc.prems in simp_all)
qed

subsection \<open>The for statement\<close>

text \<open>
  Claim C6. A for statement that parses gives a ForStatement node with exactly four
  children, in the order initializer, condition, increment, body. With \<open>p2\<close> the cursor
  after the opening parenthesis, \<open>p3\<close> after the initializer and \<open>p4\<close> after the condition:
  a slot that is empty (the next token is the semicolon, for the increment the closing
  parenthesis) gives an Empty node whose value names the slot; a non-empty initializer is
  the node of the declaration or expression statement parsed there; a non-empty condition
  or increment is the very node that \<open>parse_expression\<close> returns there, which is a
  constant, an identifier, a binary or an assignment expression, and not a wrapper; the
  body is the node of the statement after the closing parenthesis.
\<close>

theorem for_statement_shape:
  assumes "parse_for_statement (Suc n) ts pos = Inr (node, pos')"
  shows "\<exists>init cond incr body start_line p2 p3 p4 p5 p6.
     node = ParseNode ''ForStatement'' ''for'' start_line [init, cond, incr, body] \<and>
     start_line = line_number (peek ts pos) \<and>
     (\<exists>p1 tf tp. match ts (skip_comments ts pos) ''KEYWORD'' ''for'' = Inr (tf, p1) \<and>
                  match ts p1 ''SPECIAL CHARACTER'' ''('' = Inr (tp, p2)) \<and>
     (if token_value (peek ts p2) = '';''
      then init = ParseNode ''Empty'' ''initializer'' start_line [] \<and>
           (\<exists>t. match ts (skip_comments ts p2) ''SPECIAL CHARACTER'' '';'' = Inr (t, p3))
      else parse_variable_declaration n ts (skip_comments ts p2) = Inr (init, p3) \<or>
           parse_expression_statement n ts (skip_comments ts p2) = Inr (init, p3)) \<and>
     (if token_value (peek ts p3) = '';''
      then cond = ParseNode ''Empty'' ''condition'' start_line [] \<and>
           (\<exists>t. match ts (skip_comments ts p3) ''SPECIAL CHARACTER'' '';'' = Inr (t, p4))
      else ntype cond \<in> expression_kinds \<and>
           (\<exists>q t. parse_expression n ts (skip_comments ts p3) = Inr (cond, q) \<and>
                  match ts q ''SPECIAL CHARACTER'' '';'' = Inr (t, p4))) \<and>
     (if token_value (peek ts p4) = '')''
      then incr = ParseNode ''Empty'' ''increment'' start_line [] \<and> p5 = skip_comments ts p4
      else ntype incr \<in> expression_kinds \<and>
           parse_expression n ts (skip_comments ts p4) = Inr (incr, p5)) \<and>
     (\<exists>t. match ts p5 ''SPECIAL CHARACTER'' '')'' = Inr (t, p6)) \<and>
     parse_statement n ts p6 = Inr (body, pos')"
proof -
  define call where "call = parse_production n"
  define start_line where "start_line = line_number (peek ts pos)"
  from assms have a: "parse_for_statement_body call ts pos = Inr (node, pos')"
    by (simp add: call_def)
  from a obtain tf p1 tpar p2 init p3 cond p4 incr p5 tcl p6 body where
    m1: "match ts (skip_comments ts pos) ''KEYWORD'' ''for'' = Inr (tf, p1)" and
    m2: "match ts p1 ''SPECIAL CHARACTER'' ''('' = Inr (tpar, p2)" and
    s1: "(if token_value (peek ts p2) = '';'' then
              bind (match ts (skip_comments ts p2) ''SPECIAL CHARACTER'' '';'') (\<lambda>p' _.
              Inr (ParseNode ''Empty'' ''initializer'' start_line [], p'))
            else if token_value (peek ts p2) = ''int'' \<or> token_value (peek ts p2) = ''char'' \<or>
                    token_value (peek ts p2) = ''float''
              then call Variable_declaration ts (skip_comments ts p2)
            else call Expression_statement ts (skip_comments ts p2)) = Inr (init, p3)" and
    s2: "(if token_value (peek ts p3) = '';'' then
              bind (match ts (skip_comments ts p3) ''SPECIAL CHARACTER'' '';'') (\<lambda>p' _.
              Inr (ParseNode ''Empty'' ''condition'' start_line [], p'))
            else
              bind (call Expression ts (skip_comments ts p3)) (\<lambda>p' e.
              bind (match ts p' ''SPECIAL CHARACTER'' '';'') (\<lambda>p'' _. Inr (e, p''))))
         = Inr (cond, p4)" and
    s3: "(if token_value (peek ts p4) = '')''
            then Inr (ParseNode ''Empty'' ''increment'' start_line [], skip_comments ts p4)
            else call Expression ts (skip_comments ts p4)) = Inr (incr, p5)" and
    m3: "match ts p5 ''SPECIAL CHARACTER'' '')'' = Inr (tcl, p6)" and
    b: "call Statement ts p6 = Inr (body, pos')" and
    n: "node = ParseNode ''ForStatement'' ''for'' start_line [init, cond, incr, body]"
    unfolding parse_for_statement_body_def Let_def start_line_def
    by (auto elim!: bind_Inr_E)
  have i: "if token_value (peek ts p2) = '';''
      then init = ParseNode ''Empty'' ''initializer'' start_line [] \<and>
           (\<exists>t. match ts (skip_comments ts p2) ''SPECIAL CHARACTER'' '';'' = Inr (t, p3))
      else parse_variable_declaration n ts (skip_comments ts p2) = Inr (init, p3) \<or>
           parse_expression_statement n ts (skip_comments ts p2) = Inr (init, p3)"
    using s1 by (auto simp: call_def elim!: bind_Inr_E split: if_splits)
  have c: "if token_value (peek ts p3) = '';''
      then cond = ParseNode ''Empty'' ''condition'' start_line [] \<and>
           (\<exists>t. match ts (skip_comments ts p3) ''SPECIAL CHARACTER'' '';'' = Inr (t, p4))
      else ntype cond \<in> expression_kinds \<and>
           (\<exists>q t. parse_expression n ts (skip_comments ts p3) = Inr (cond, q) \<and>
                  match ts q ''SPECIAL CHARACTER'' '';'' = Inr (t, p4))"
    using s2 by (auto simp: call_def elim!: bind_Inr_E split: if_splits
                      dest: expression_node_kind [of n Expression])
  have u: "if token_value (peek ts p4) = '')''
      then incr = ParseNode ''Empty'' ''increment'' start_line [] \<and> p5 = skip_comments ts p4
      else ntype incr \<in> expression_kinds \<and>
           parse_expression n ts (skip_comments ts p4) = Inr (incr, p5)"
    using s3 by (auto simp: call_def split: if_splits dest: expression_node_kind [of n Expression])
  from m1 m2 have "\<exists>p1 tf tp. match ts (skip_comments ts pos) ''KEYWORD'' ''for'' = Inr (tf, p1) \<and>
                  match ts p1 ''SPECIAL CHARACTER'' ''('' = Inr (tp, p2)" by auto
  with n i c u m3 b show ?thesis
    unfolding call_def start_line_def by blast
qed
text \<open>
  The same shape at a given for statement, \<open>for ( ; i < 10 ; ) ;\<close>: the initializer and
  the increment are the Empty nodes, the condition is the binary expression itself.
\<close>

theorem for_statement_shape_witness:
  "parse_for_statement (Suc 13)
     [mkToken ''for'' ''KEYWORD'' 1,
      mkToken ''('' ''SPECIAL CHARACTER'' 1,
      mkToken '';'' ''SPECIAL CHARACTER'' 1,
      mkToken ''i'' ''IDENTIFIER'' 1,
      mkToken ''<'' ''OPERATOR'' 1,
      mkToken ''10'' ''NUMERIC CONSTANT'' 1,
      mkToken '';'' ''SPECIAL CHARACTER'' 1,
      mkToken '')'' ''SPECIAL CHARACTER'' 1,
      mkToken '';'' ''SPECIAL CHARACTER'' 1] 0 =
   Inr (ParseNode ''ForStatement'' ''for'' 1
     [ParseNode ''Empty'' ''initializer'' 1 [],
      ParseNode ''BinaryExpression'' ''<'' 1
       [ParseNode ''Identifier'' ''i'' 1 [], ParseNode ''Constant'' ''10'' 1 []],
      ParseNode ''Empty'' ''increment'' 1 [],
      ParseNode ''EmptyStatement'' '';'' 1 []], 9) \<and>
   (\<exists>init cond incr body start_line.
     ParseNode ''ForStatement'' ''for'' 1
     [ParseNode ''Empty'' ''initializer'' 1 [],
      ParseNode ''BinaryExpression'' ''<'' 1
       [ParseNode ''Identifier'' ''i'' 1 [], ParseNode ''Constant'' ''10'' 1 []],
      ParseNode ''Empty'' ''increment'' 1 [],
      ParseNode ''EmptyStatement'' '';'' 1 []] =
     ParseNode ''ForStatement'' ''for'' start_line [init, cond, incr, body])"
proof -
  let ?ts = "[mkToken ''for'' ''KEYWORD'' 1,
      mkToken ''('' ''SPECIAL CHARACTER'' 1,
      mkToken '';'' ''SPECIAL CHARACTER'' 1,
      mkToken ''i'' ''IDENTIFIER'' 1,
      mkToken ''<'' ''OPERATOR'' 1,
      mkToken ''10'' ''NUMERIC CONSTANT'' 1,
      mkToken '';'' ''SPECIAL CHARACTER'' 1,
      mkToken '')'' ''SPECIAL CHARACTER'' 1,
      mkToken '';'' ''SPECIAL CHARACTER'' 1]"
  let ?node = "ParseNode ''ForStatement'' ''for'' 1
     [ParseNode ''Empty'' ''initializer'' 1 [],
      ParseNode ''BinaryExpression'' ''<'' 1
       [ParseNode ''Identifier'' ''i'' 1 [], ParseNode ''Constant'' ''10'' 1 []],
      ParseNode ''Empty'' ''increment'' 1 [],
      ParseNode ''EmptyStatement'' '';'' 1 []]"
  have fuel: "Suc 13 = Suc (Suc (Suc (Suc (Suc (Suc (Suc (Suc (Suc (Suc (Suc (Suc (Suc (Suc (0))))))))))))))"
    by simp
  have run: "parse_for_statement (Suc 13) ?ts 0 = Inr (?node, 9)"
    unfolding fuel by (simp add: parser_bodies parser_prims eval_nat_numeral cong: eval_congs)
  from for_statement_shape [OF run]
  have "\<exists>init cond incr body start_line.
     ?node = ParseNode ''ForStatement'' ''for'' start_line [init, cond, incr, body]"
    by blast
  with run show ?thesis by (rule conjI)
qed

subsection \<open>A for statement whose initializer is a \<open>const\<close> declaration\<close>

text \<open>
  Claim C7. The claim says that the initializer of a for statement accepts every variable
  declaration, also one that begins with \<open>const\<close>. \<open>parse_for_statement\<close> (line 336) sends the
  initializer to \<open>parse_variable_declaration\<close> only when it begins with \<open>int\<close>, \<open>char\<close> or
  \<open>float\<close>; \<open>parse_statement\<close> (line 238) and \<open>parse_top_level_declaration\<close> (line 159)
  test for \<open>const\<close> as well, and \<open>parse_variable_declaration\<close> itself reads the optional
  \<open>const\<close>. So the tokens of
  \<open>int main() { for (const int i = 0; i < 10; i = i + 1) ; }\<close> are rejected: \<open>const\<close> is
  taken for the start of an expression. The same declaration as a statement of the block,
  \<open>int main() { const int i = 0; }\<close>, is parsed. Both for every bound on the depth of
  calls from 30 on.
\<close>

theorem for_initializer_rejects_const:
  "parse (n + 30)
     [mkToken ''int'' ''KEYWORD'' 1,
      mkToken ''main'' ''IDENTIFIER'' 1,
      mkToken ''('' ''SPECIAL CHARACTER'' 1,
      mkToken '')'' ''SPECIAL CHARACTER'' 1,
      mkToken ''{'' ''SPECIAL CHARACTER'' 1,
      mkToken ''for'' ''KEYWORD'' 1,
      mkToken ''('' ''SPECIAL CHARACTER'' 1,
      mkToken ''const'' ''KEYWORD'' 1,
      mkToken ''int'' ''KEYWORD'' 1,
      mkToken ''i'' ''IDENTIFIER'' 1,
      mkToken ''='' ''OPERATOR'' 1,
      mkToken ''0'' ''NUMERIC CONSTANT'' 1,
      mkToken '';'' ''SPECIAL CHARACTER'' 1,
      mkToken ''i'' ''IDENTIFIER'' 1,
      mkToken ''<'' ''OPERATOR'' 1,
      mkToken ''10'' ''NUMERIC CONSTANT'' 1,
      mkToken '';'' ''SPECIAL CHARACTER'' 1,
      mkToken ''i'' ''IDENTIFIER'' 1,
      mkToken ''='' ''OPERATOR'' 1,
      mkToken ''i'' ''IDENTIFIER'' 1,
      mkToken ''+'' ''OPERATOR'' 1,
      mkToken ''1'' ''NUMERIC CONSTANT'' 1,
      mkToken '')'' ''SPECIAL CHARACTER'' 1,
      mkToken '';'' ''SPECIAL CHARACTER'' 1,
      mkToken ''}'' ''SPECIAL CHARACTER'' 1] =
   Inl (Syntax_Error (Some 1) ''Expected a value, variable, or expression in parentheses.'') \<and>
   parse (n + 30)
     [mkToken ''int'' ''KEYWORD'' 1,
      mkToken ''main'' ''IDENTIFIER'' 1,
      mkToken ''('' ''SPECIAL CHARACTER'' 1,
      mkToken '')'' ''SPECIAL CHARACTER'' 1,
      mkToken ''{'' ''SPECIAL CHARACTER'' 1,
      mkToken ''const'' ''KEYWORD'' 1,
      mkToken ''int'' ''KEYWORD'' 1,
      mkToken ''i'' ''IDENTIFIER'' 1,
      mkToken ''='' ''OPERATOR'' 1,
      mkToken ''0'' ''NUMERIC CONSTANT'' 1,
      mkToken '';'' ''SPECIAL CHARACTER'' 1,
      mkToken ''}'' ''SPECIAL CHARACTER'' 1] =
   Inr (ParseNode ''Program'' [] 1
     [ParseNode ''FunctionDefinition'' ''main'' 1
       [ParseNode ''TypeSpecifier'' ''int'' 1 [],
        ParseNode ''BlockStatement'' ''{}'' 1
         [ParseNode ''VariableDeclarationStatement'' [] 1
           [ParseNode ''Keyword'' ''const'' 1 [],
            ParseNode ''TypeSpecifier'' ''int'' 1 [],
            ParseNode ''Declarator'' ''i'' 1
             [ParseNode ''Initializer'' ''='' 1 [ParseNode ''Constant'' ''0'' 1 []]]]]]])"
proof -
  have fuel: "n + 30 = Suc (Suc (Suc (Suc (Suc (Suc (Suc (Suc (Suc (Suc (Suc (Suc (Suc (Suc (Suc (Suc (Suc (Suc (Suc (Suc (Suc (Suc (Suc (Suc (Suc (Suc (Suc (Suc (Suc (Suc (n))))))))))))))))))))))))))))))"
    by simp
  have "parse (n + 30)
     [mkToken ''int'' ''KEYWORD'' 1,
      mkToken ''main'' ''IDENTIFIER'' 1,
      mkToken ''('' ''SPECIAL CHARACTER'' 1,
      mkToken '')'' ''SPECIAL CHARACTER'' 1,
      mkToken ''{'' ''SPECIAL CHARACTER'' 1,
      mkToken ''for'' ''KEYWORD'' 1,
      mkToken ''('' ''SPECIAL CHARACTER'' 1,
      mkToken ''const'' ''KEYWORD'' 1,
      mkToken ''int'' ''KEYWORD'' 1,
      mkToken ''i'' ''IDENTIFIER'' 1,
      mkToken ''='' ''OPERATOR'' 1,
      mkToken ''0'' ''NUMERIC CONSTANT'' 1,
      mkToken '';'' ''SPECIAL CHARACTER'' 1,
      mkToken ''i'' ''IDENTIFIER'' 1,
      mkToken ''<'' ''OPERATOR'' 1,
      mkToken ''10'' ''NUMERIC CONSTANT'' 1,
      mkToken '';'' ''SPECIAL CHARACTER'' 1,
      mkToken ''i'' ''IDENTIFIER'' 1,
      mkToken ''='' ''OPERATOR'' 1,
      mkToken ''i'' ''IDENTIFIER'' 1,
      mkToken ''+'' ''OPERATOR'' 1,
      mkToken ''1'' ''NUMERIC CONSTANT'' 1,
      mkToken '')'' ''SPECIAL CHARACTER'' 1,
      mkToken '';'' ''SPECIAL CHARACTER'' 1,
      mkToken ''}'' ''SPECIAL CHARACTER'' 1] =
   Inl (Syntax_Error (Some 1) ''Expected a value, variable, or expression in parentheses.'')"
    unfolding fuel by (simp add: parser_top parser_bodies parser_prims cong: eval_congs)
  moreover have "parse (n + 30)
     [mkToken ''int'' ''KEYWORD'' 1,
      mkToken ''main'' ''IDENTIFIER'' 1,
      mkToken ''('' ''SPECIAL CHARACTER'' 1,
      mkToken '')'' ''SPECIAL CHARACTER'' 1,
      mkToken ''{'' ''SPECIAL CHARACTER'' 1,
      mkToken ''const'' ''KEYWORD'' 1,
      mkToken ''int'' ''KEYWORD'' 1,
      mkToken ''i'' ''IDENTIFIER'' 1,
      mkToken ''='' ''OPERATOR'' 1,
      mkToken ''0'' ''NUMERIC CONSTANT'' 1,
      mkToken '';'' ''SPECIAL CHARACTER'' 1,
      mkToken ''}'' ''SPECIAL CHARACTER'' 1] =
   Inr (ParseNode ''Program'' [] 1
     [ParseNode ''FunctionDefinition'' ''main'' 1
       [ParseNode ''TypeSpecifier'' ''int'' 1 [],
        ParseNode ''BlockStatement'' ''{}'' 1
         [ParseNode ''VariableDeclarationStatement'' [] 1
           [ParseNode ''Keyword'' ''const'' 1 [],
            ParseNode ''TypeSpecifier'' ''int'' 1 [],
            ParseNode ''Declarator'' ''i'' 1
             [ParseNode ''Initializer'' ''='' 1 [ParseNode ''Constant'' ''0'' 1 []]]]]]])"
    unfolding fuel by (simp add: parser_top parser_bodies parser_prims cong: eval_congs)
  ultimately show ?thesis by (rule conjI)
qed

subsection \<open>Comments after the last token\<close>

text \<open>
  Claim C1. The claim says that comment tokens inserted anywhere leave the result of the
  parse unchanged. Comments are skipped by \<open>peek\<close>, \<open>match\<close> and \<open>lookahead\<close>, but the loop of
  \<open>parse_program\<close> (line 144) asks \<open>is_at_end\<close>, which does not skip them: with a comment
  after the last declaration the cursor is not at the end, \<open>parse_top_level_declaration\<close>
  is called once more, \<open>peek\<close> delivers the end-of-file token, and the parse fails. The
  tokens of \<open>int x;\<close> are parsed; the same tokens followed by one comment token are not.
  Likewise the line of the root: 0 for no tokens at all, the line of the end-of-file
  token, -1, for a single comment token. All for every bound on the depth of calls from
  20 on.
\<close>

theorem trailing_comment_changes_parse:
  "parse (n + 20) [mkToken ''int'' ''KEYWORD'' 1,
      mkToken ''x'' ''IDENTIFIER'' 1,
      mkToken '';'' ''SPECIAL CHARACTER'' 1] =
   Inr (ParseNode ''Program'' [] 1
     [ParseNode ''VariableDeclarationStatement'' [] 1
       [ParseNode ''TypeSpecifier'' ''int'' 1 [], ParseNode ''Declarator'' ''x'' 1 []]]) \<and>
   parse (n + 20) [mkToken ''int'' ''KEYWORD'' 1,
      mkToken ''x'' ''IDENTIFIER'' 1,
      mkToken '';'' ''SPECIAL CHARACTER'' 1,
      mkToken ''//'' ''Single-Line Comment'' 2] =
   Inl (Syntax_Error None
     ''Unrecognized top-level statement. Expected a global variable or function.'') \<and>
   parse (n + 20) [] = Inr (ParseNode ''Program'' [] 0 []) \<and>
   parse (n + 20) [mkToken ''//'' ''Single-Line Comment'' 1] = Inr (ParseNode ''Program'' [] (- 1) [])"
proof -
  have fuel: "n + 20 = Suc (Suc (Suc (Suc (Suc (Suc (Suc (Suc (Suc (Suc (Suc (Suc (Suc (Suc (Suc (Suc (Suc (Suc (Suc (Suc (n))))))))))))))))))))"
    by simp
  show ?thesis
    unfolding fuel by (simp add: parser_top parser_bodies parser_prims cong: eval_congs)
qed

end
